theory Spec2Isabelle
  imports Complex_Main "HOL-Library.Multiset"
begin

section \<open>The discrete choice model table of \<open>dcm_table.h\<close>\<close>

text \<open>
  A shallow embedding of the class \<open>DCMTable\<close> of
  \<open>mlpack/mixed_logit_dcm/dcm_table.h\<close>. The object is a record, a method that
  mutates it returns the new record, and every way a call can leave defined behaviour is a
  value of the type \<open>error\<close>.

  Numbers. A C++ \<open>int\<close> is an \<open>int\<close> together with the range
  \<open>INT_MIN .. INT_MAX\<close>; an addition or a conversion that leaves the range is undefined
  behaviour in C++ and the error \<open>Undefined_Behaviour\<close> here. What the tables and
  \<open>beta_vector\<close> hold are finite doubles, modelled as reals. What
  \<open>choice_probabilities\<close> computes from them is a \<open>double\<close>: a finite value, an
  infinity or NaN, with the overflow and the NaN rules of IEEE-754. Rounding inside the
  finite range is not modelled: there an operation returns its exact result.
\<close>

subsection \<open>Outcomes\<close>

datatype error =
    Exit int string  \<comment> \<open>\<open>exit(status)\<close> after writing the string to \<open>std::cerr\<close>\<close>
  | Undefined_Behaviour  \<comment> \<open>unchecked index out of bounds, signed overflow,
      conversion out of range, or a failed precondition of a library call\<close>

fun and_then :: "error + 'a \<Rightarrow> ('a \<Rightarrow> error + 'b) \<Rightarrow> error + 'b" where
  "and_then (Inl e) f = Inl e"
| "and_then (Inr x) f = f x"

subsection \<open>Integers and doubles\<close>

definition INT_MIN :: int where
  "INT_MIN = - 2147483648"

definition INT_MAX :: int where
  "INT_MAX = 2147483647"

definition in_int_range :: "int \<Rightarrow> bool" where
  "in_int_range k = (INT_MIN \<le> k \<and> k \<le> INT_MAX)"

text \<open>\<open>a + b\<close> on two \<open>int\<close>s: signed overflow is undefined.\<close>

definition int_add :: "int \<Rightarrow> int \<Rightarrow> error + int" where
  "int_add a b = (if in_int_range (a + b) then Inr (a + b) else Inl Undefined_Behaviour)"

text \<open>
  \<open>static_cast<int>(x)\<close> on a \<open>double\<close>: the fractional part is discarded (truncation
  towards zero); the behaviour is undefined when the truncated value is not an \<open>int\<close>.
\<close>

definition static_cast_int :: "real \<Rightarrow> error + int" where
  "static_cast_int x =
     (let k = (if 0 \<le> x then \<lfloor>x\<rfloor> else \<lceil>x\<rceil>)
      in if in_int_range k then Inr k else Inl Undefined_Behaviour)"

text \<open>\<open>std::numeric_limits<double>::max()\<close>, the largest finite IEEE-754 double.\<close>

definition DBL_MAX :: real where
  "DBL_MAX = (2 ^ 53 - 1) * 2 ^ 971"

text \<open>
  The values a computation on doubles can produce. Signed zeros and subnormal numbers are
  not distinguished.
\<close>

datatype double = Finite real | PlusInf | MinusInf | NaN

text \<open>
  The double that an operation with the exact result \<open>r\<close> returns, under rounding to
  nearest: from \<open>DBL_MAX\<close> plus half a unit in the last place (\<open>2 ^ 970\<close>) on, the result
  is an infinity; between \<open>DBL_MAX\<close> and that bound it is \<open>DBL_MAX\<close>; inside the
  finite range it is taken to be \<open>r\<close> itself.
\<close>

definition overflow_threshold :: real where
  "overflow_threshold = 2 ^ 1024 - 2 ^ 970"

definition fl :: "real \<Rightarrow> double" where
  "fl r =
     (if overflow_threshold \<le> r then PlusInf
      else if r \<le> - overflow_threshold then MinusInf
      else if DBL_MAX < r then Finite DBL_MAX
      else if r < - DBL_MAX then Finite (- DBL_MAX)
      else Finite r)"

text \<open>\<open>a + b\<close>, \<open>a - b\<close> and \<open>a / b\<close> on doubles, and \<open>exp\<close> of \<open><cmath>\<close>.\<close>

fun double_add :: "double \<Rightarrow> double \<Rightarrow> double" where
  "double_add (Finite a) (Finite b) = fl (a + b)"
| "double_add NaN b = NaN"
| "double_add a NaN = NaN"
| "double_add PlusInf MinusInf = NaN"
| "double_add MinusInf PlusInf = NaN"
| "double_add PlusInf b = PlusInf"
| "double_add a PlusInf = PlusInf"
| "double_add MinusInf b = MinusInf"
| "double_add a MinusInf = MinusInf"

fun double_sub :: "double \<Rightarrow> double \<Rightarrow> double" where
  "double_sub (Finite a) (Finite b) = fl (a - b)"
| "double_sub NaN b = NaN"
| "double_sub a NaN = NaN"
| "double_sub PlusInf PlusInf = NaN"
| "double_sub MinusInf MinusInf = NaN"
| "double_sub PlusInf b = PlusInf"
| "double_sub a MinusInf = PlusInf"
| "double_sub MinusInf b = MinusInf"
| "double_sub a PlusInf = MinusInf"

fun double_div :: "double \<Rightarrow> double \<Rightarrow> double" where
  "double_div (Finite a) (Finite b) =
     (if b = 0 then (if a = 0 then NaN else if 0 < a then PlusInf else MinusInf)
      else fl (a / b))"
| "double_div NaN b = NaN"
| "double_div a NaN = NaN"
| "double_div (Finite a) PlusInf = Finite 0"
| "double_div (Finite a) MinusInf = Finite 0"
| "double_div PlusInf (Finite b) = (if 0 \<le> b then PlusInf else MinusInf)"
| "double_div MinusInf (Finite b) = (if 0 \<le> b then MinusInf else PlusInf)"
| "double_div a b = NaN"

fun double_exp :: "double \<Rightarrow> double" where
  "double_exp (Finite x) = fl (exp x)"
| "double_exp PlusInf = PlusInf"
| "double_exp MinusInf = Finite 0"
| "double_exp NaN = NaN"

text \<open>\<open>a < b\<close> and \<open>a <= b\<close> on doubles: a comparison with NaN is false.\<close>

fun double_less :: "double \<Rightarrow> double \<Rightarrow> bool" where
  "double_less (Finite a) (Finite b) = (a < b)"
| "double_less NaN b = False"
| "double_less a NaN = False"
| "double_less a MinusInf = False"
| "double_less MinusInf b = True"
| "double_less PlusInf b = False"
| "double_less a PlusInf = True"

fun double_le :: "double \<Rightarrow> double \<Rightarrow> bool" where
  "double_le (Finite a) (Finite b) = (a \<le> b)"
| "double_le NaN b = False"
| "double_le a NaN = False"
| "double_le MinusInf b = True"
| "double_le a PlusInf = True"
| "double_le a MinusInf = False"
| "double_le PlusInf b = False"

text \<open>\<open>std::max(a, b)\<close>, which is \<open>(a < b) ? b : a\<close>.\<close>

definition std_max :: "double \<Rightarrow> double \<Rightarrow> double" where
  "std_max a b = (if double_less a b then b else a)"


subsection \<open>Vectors and raw tables\<close>

text \<open>
  An \<open>arma::vec\<close> of finite doubles (a point of a table, \<open>beta_vector\<close>) is a list of
  reals. Its \<open>operator[]\<close> does not check the index.
\<close>

type_synonym vec = "real list"

definition vec_at :: "vec \<Rightarrow> nat \<Rightarrow> error + real" where
  "vec_at v i = (if i < length v then Inr (v ! i) else Inl Undefined_Behaviour)"

text \<open>
  \<open>arma::dot\<close> of two vectors of finite doubles; the two must have the same number of
  elements. Each product and each partial sum can overflow. The order in which the library
  adds the products is not part of the sources; the model adds them from left to right,
  starting from 0 (for vectors of one element every order gives the same result).
\<close>

definition dot :: "vec \<Rightarrow> vec \<Rightarrow> error + double" where
  "dot a b =
     (if length a = length b
      then Inr (foldl (\<lambda>acc (x, y). double_add acc (fl (x * y))) (Finite 0) (zip a b))
      else Inl Undefined_Behaviour)"

text \<open>
  Modelled from the spec: the class \<open>TableType\<close> (\<open>core/table/table.h\<close>) is not among
  the sources. The spec describes it as a column-oriented numeric table with
  \<open>get(row, vec*)\<close> and \<open>n_entries()\<close>, one point (a sequence of doubles) per entry.
  A table is the list of its points; \<open>get\<close> hands out the point of an entry (in the source
  as an alias into the table, so that writing to the point writes to the table), and
  \<open>data().at(0, i)\<close> is component 0 of point \<open>i\<close>. Neither checks its index.
\<close>

type_synonym Table = "vec list"

definition n_entries :: "Table \<Rightarrow> int" where
  "n_entries t = int (length t)"

definition get :: "Table \<Rightarrow> int \<Rightarrow> error + vec" where
  "get t i =
     (if 0 \<le> i \<and> i < n_entries t then Inr (t ! nat i) else Inl Undefined_Behaviour)"

definition data_at_0 :: "Table \<Rightarrow> int \<Rightarrow> error + real" where
  "data_at_0 t i = and_then (get t i) (\<lambda>point. vec_at point 0)"

text \<open>
  \<open>static_cast<int>(t->data().at(0, i))\<close>, the body shared by the accessors
  \<open>num_discrete_choices\<close> and \<open>get_discrete_choice_index\<close>.
\<close>

definition entry_as_int :: "Table \<Rightarrow> int \<Rightarrow> error + int" where
  "entry_as_int t i = and_then (data_at_0 t i) static_cast_int"

subsection \<open>The shuffle\<close>

text \<open>
  Modelled from the spec: \<open>std::random_shuffle\<close> belongs to the C++ standard library
  and draws from the process-wide \<open>std::rand\<close>; the spec says only that the sequence
  is "pseudo-randomly permuted". The model is the library's loop
  \<open>for (i = first + 1; i != last; ++i) iter_swap(i, first + rand() % ((i - first) + 1))\<close>
  with the random source as a parameter: \<open>rnd i\<close> is the number \<open>rand()\<close> returns in
  the iteration for position \<open>i\<close>.
\<close>

fun shuffle_loop :: "(nat \<Rightarrow> nat) \<Rightarrow> nat list \<Rightarrow> 'a list \<Rightarrow> 'a list" where
  "shuffle_loop rnd [] xs = xs"
| "shuffle_loop rnd (i # is) xs =
     (let j = rnd i mod (i + 1)
      in shuffle_loop rnd is (xs[i := xs ! j, j := xs ! i]))"

definition random_shuffle :: "(nat \<Rightarrow> nat) \<Rightarrow> 'a list \<Rightarrow> 'a list" where
  "random_shuffle rnd xs = shuffle_loop rnd [1..<length xs] xs"

subsection \<open>The object\<close>

text \<open>
  The data members of \<open>DCMTable\<close> (the trailing underscore of the source's names is
  dropped). The member \<open>distribution_\<close> belongs to the external class \<open>Distribution\<close>;
  \<open>Init\<close> hands it \<open>attribute_dimensions_\<close> and nothing modelled here reads it back.
\<close>

record DCMTable =
  attribute_table :: Table
  attribute_dimensions :: "int list"
  decisions_table :: Table
  num_alternatives_table :: Table
  cumulative_num_discrete_choices :: "int list"
  shuffled_indices_for_person :: "int list"
  num_people_per_discrete_choice :: "int list"

subsection \<open>Accessors\<close>

definition num_people_per_discrete_choice_at :: "DCMTable \<Rightarrow> int \<Rightarrow> error + int" where
  "num_people_per_discrete_choice_at this discrete_choice_index =
     (if 0 \<le> discrete_choice_index
         \<and> nat discrete_choice_index < length (num_people_per_discrete_choice this)
      then Inr (num_people_per_discrete_choice this ! nat discrete_choice_index)
      else Inl Undefined_Behaviour)"

definition shuffled_indices_for_person_at :: "DCMTable \<Rightarrow> int \<Rightarrow> error + int" where
  "shuffled_indices_for_person_at this pos =
     (if 0 \<le> pos \<and> nat pos < length (shuffled_indices_for_person this)
      then Inr (shuffled_indices_for_person this ! nat pos)
      else Inl Undefined_Behaviour)"

definition num_discrete_choices :: "DCMTable \<Rightarrow> int \<Rightarrow> error + int" where
  "num_discrete_choices this person_index =
     entry_as_int (num_alternatives_table this) person_index"

definition total_num_discrete_choices :: "DCMTable \<Rightarrow> int" where
  "total_num_discrete_choices this = int (length (num_people_per_discrete_choice this))"

definition get_discrete_choice_index :: "DCMTable \<Rightarrow> int \<Rightarrow> error + int" where
  "get_discrete_choice_index this person_index =
     entry_as_int (decisions_table this) person_index"

definition num_people :: "DCMTable \<Rightarrow> int" where
  "num_people this = int (length (cumulative_num_discrete_choices this))"

definition get_attribute_vector :: "DCMTable \<Rightarrow> int \<Rightarrow> int \<Rightarrow> error + vec" where
  "get_attribute_vector this person_index discrete_choice_index =
     (if 0 \<le> person_index
         \<and> nat person_index < length (cumulative_num_discrete_choices this)
      then and_then
             (int_add (cumulative_num_discrete_choices this ! nat person_index)
                discrete_choice_index)
             (\<lambda>index. get (attribute_table this) index)
      else Inl Undefined_Behaviour)"

subsection \<open>\<open>Init\<close>\<close>

text \<open>
  Each \<open>for\<close> loop of the source is a recursion over the list of the indices it visits,
  in order, carrying what the loop body mutates.

  Lines 302 to 306: \<open>point\<close> aliases entry \<open>i\<close> of the decisions table and
  \<open>point[0] -= 1.0\<close> writes through it.
\<close>

fun subtract_ones :: "nat list \<Rightarrow> Table \<Rightarrow> error + Table" where
  "subtract_ones [] t = Inr t"
| "subtract_ones (i # is) t =
     and_then (get t (int i)) (\<lambda>point.
     and_then (vec_at point 0) (\<lambda>x.
       subtract_ones is (t[i := point[0 := x - 1]])))"

text \<open>
  Lines 329 to 337: \<open>cumulative[i] = cumulative[i - 1] + static_cast<int>(point[0])\<close>
  where \<open>point\<close> is entry \<open>i - 1\<close> of the table of the numbers of alternatives.
\<close>

fun cumulative_loop :: "Table \<Rightarrow> nat list \<Rightarrow> int list \<Rightarrow> error + int list" where
  "cumulative_loop alts [] cumulative = Inr cumulative"
| "cumulative_loop alts (i # is) cumulative =
     and_then (get alts (int i - 1)) (\<lambda>point.
     and_then (vec_at point 0) (\<lambda>x.
     and_then (static_cast_int x) (\<lambda>num_choices_for_current_person.
     and_then (int_add (cumulative ! (i - 1)) num_choices_for_current_person) (\<lambda>s.
       cumulative_loop alts is (cumulative[i := s])))))"

text \<open>
  Lines 326 to 337: the vector is resized to the number of decisions, element 0 is
  written without a check, then the loop runs from 1.
\<close>

definition cumulative_offsets :: "Table \<Rightarrow> nat \<Rightarrow> error + int list" where
  "cumulative_offsets alts n =
     (if n = 0 then Inl Undefined_Behaviour
      else cumulative_loop alts [1..<n] ((replicate n 0)[0 := 0]))"

text \<open>
  Lines 342 to 348: the left-hand side of the comparison, the last cumulative count plus
  the last person's number of alternatives.
\<close>

definition last_total :: "Table \<Rightarrow> int list \<Rightarrow> error + int" where
  "last_total alts cumulative =
     and_then (get alts (int (length cumulative) - 1)) (\<lambda>last_count_vector.
     and_then (vec_at last_count_vector 0) (\<lambda>x.
     and_then (static_cast_int x) (\<lambda>last_count.
       if cumulative = [] then Inl Undefined_Behaviour
       else int_add (cumulative ! (length cumulative - 1)) last_count)))"

definition mismatch_message :: string where
  "mismatch_message =
     ''The cumulative number of discrete choices do not equal '' @
     ''the number of total number of attribute vectors.'' @ [CHR 0x0A]"

text \<open>
  Lines 359 to 365: the largest number of alternatives in the table, starting from 0
  (the source's local variable \<open>total_num_discrete_choices\<close>).
\<close>

fun max_loop :: "Table \<Rightarrow> nat list \<Rightarrow> int \<Rightarrow> error + int" where
  "max_loop alts [] largest = Inr largest"
| "max_loop alts (i # is) largest =
     and_then (get alts (int i)) (\<lambda>point.
     and_then (vec_at point 0) (\<lambda>x.
     and_then (static_cast_int x) (\<lambda>k.
       max_loop alts is (max largest k))))"

text \<open>
  Lines 371 to 373: \<open>num_people_per_discrete_choice_[get_discrete_choice_index(i)]++\<close>,
  an unchecked index into the vector. The increment cannot overflow: a count never exceeds
  the number of entries, which \<open>n_entries\<close> returns as an \<open>int\<close>.
\<close>

fun count_loop :: "nat list \<Rightarrow> DCMTable \<Rightarrow> error + DCMTable" where
  "count_loop [] this = Inr this"
| "count_loop (i # is) this =
     and_then (get_discrete_choice_index this (int i)) (\<lambda>k.
       if 0 \<le> k \<and> nat k < length (num_people_per_discrete_choice this)
       then count_loop is
              (this\<lparr>num_people_per_discrete_choice :=
                 (num_people_per_discrete_choice this)
                   [nat k := num_people_per_discrete_choice this ! nat k + 1]\<rparr>)
       else Inl Undefined_Behaviour)"

text \<open>
  \<open>Init\<close>, lines 287 to 374. Every data member is overwritten, so the result does not
  depend on the object's earlier contents. The call \<open>distribution_.Init\<close> of line 309 and
  the informational line written to \<open>std::cerr\<close> when the check passes leave the modelled
  members alone and are omitted. The parameter \<open>rnd\<close> is the random source of
  \<open>std::random_shuffle\<close>.
\<close>

definition Init ::
  "(nat \<Rightarrow> nat) \<Rightarrow> Table \<Rightarrow> int list \<Rightarrow> Table \<Rightarrow> Table \<Rightarrow> error + DCMTable" where
  "Init rnd attribute_table_in attribute_dimensions_in decisions_table_in
        num_alternatives_table_in =
     and_then (subtract_ones [0..<length decisions_table_in] decisions_table_in)
       (\<lambda>decisions.
     let shuffled = random_shuffle rnd (map int [0..<length decisions]) in
     and_then (cumulative_offsets num_alternatives_table_in (length decisions))
       (\<lambda>cumulative.
     and_then (last_total num_alternatives_table_in cumulative) (\<lambda>last_sum.
     if last_sum \<noteq> n_entries attribute_table_in then Inl (Exit 0 mismatch_message)
     else
     and_then
       (max_loop num_alternatives_table_in [0..<length num_alternatives_table_in] 0)
       (\<lambda>max_total.
     count_loop [0..<length shuffled]
       \<lparr>attribute_table = attribute_table_in,
        attribute_dimensions = attribute_dimensions_in,
        decisions_table = decisions,
        num_alternatives_table = num_alternatives_table_in,
        cumulative_num_discrete_choices = cumulative,
        shuffled_indices_for_person = shuffled,
        num_people_per_discrete_choice =
          replicate (nat max_total) 0\<rparr>))))"

subsection \<open>Choice probabilities\<close>

text \<open>
  Lines 168 to 185: the dot product of \<open>beta_vector\<close> with each attribute vector of the
  person is stored in \<open>choice_probabilities\<close>, and the running maximum is kept.
\<close>

fun dot_product_loop ::
  "DCMTable \<Rightarrow> int \<Rightarrow> vec \<Rightarrow> nat list \<Rightarrow> double list \<times> double \<Rightarrow>
     error + double list \<times> double" where
  "dot_product_loop this person_index beta_vector [] (choice_probabilities, max_dot_product) =
     Inr (choice_probabilities, max_dot_product)"
| "dot_product_loop this person_index beta_vector (i # is)
       (choice_probabilities, max_dot_product) =
     and_then (get_attribute_vector this person_index (int i))
       (\<lambda>attribute_for_discrete_choice.
     and_then (dot beta_vector attribute_for_discrete_choice) (\<lambda>dot_product.
       dot_product_loop this person_index beta_vector is
         (choice_probabilities[i := dot_product], std_max max_dot_product dot_product)))"

text \<open>
  Lines 190 to 200: each stored dot product is replaced by the exponential of
  \<open>dot product - max_dot_product + 1\<close>, and the exponentials are summed.
\<close>

definition adjusted_dot_product :: "double \<Rightarrow> double \<Rightarrow> double" where
  "adjusted_dot_product dot_product max_dot_product =
     double_add (double_sub dot_product max_dot_product) (Finite 1)"

fun exp_loop :: "double \<Rightarrow> nat list \<Rightarrow> double list \<times> double \<Rightarrow> double list \<times> double" where
  "exp_loop max_dot_product [] (choice_probabilities, normalizing_sum) =
     (choice_probabilities, normalizing_sum)"
| "exp_loop max_dot_product (i # is) (choice_probabilities, normalizing_sum) =
     (let unnormalized_probability =
            double_exp (adjusted_dot_product (choice_probabilities ! i) max_dot_product)
      in exp_loop max_dot_product is
           (choice_probabilities[i := unnormalized_probability],
            double_add normalizing_sum unnormalized_probability))"

text \<open>Lines 203 to 207: every element is divided by the sum.\<close>

fun normalize_loop :: "double \<Rightarrow> nat list \<Rightarrow> double list \<Rightarrow> double list" where
  "normalize_loop normalizing_sum [] choice_probabilities = choice_probabilities"
| "normalize_loop normalizing_sum (i # is) choice_probabilities =
     normalize_loop normalizing_sum is
       (choice_probabilities[i := double_div (choice_probabilities ! i) normalizing_sum])"

text \<open>
  The three loops of \<open>choice_probabilities\<close> one after the other, as functions of the
  object, the person and \<open>beta_vector\<close>. \<open>set_size\<close> takes an unsigned size, so a negative
  number of alternatives is outside its domain. It leaves the elements unset; the first
  loop writes every one of them before any is read, and the model starts from zeros.
  The vector keeps the \<open>num_discrete_choices\<close> elements that \<open>set_size\<close> gave it, and
  the bound of the second and of the third loop is written as its length.
\<close>

definition dot_products ::
  "DCMTable \<Rightarrow> int \<Rightarrow> vec \<Rightarrow> error + double list \<times> double" where
  "dot_products this person_index beta_vector =
     and_then (num_discrete_choices this person_index) (\<lambda>n.
       if n < 0 then Inl Undefined_Behaviour
       else dot_product_loop this person_index beta_vector [0..<nat n]
              (replicate (nat n) (Finite 0), Finite (- DBL_MAX)))"

definition unnormalized_probabilities ::
  "DCMTable \<Rightarrow> int \<Rightarrow> vec \<Rightarrow> error + double list \<times> double" where
  "unnormalized_probabilities this person_index beta_vector =
     and_then (dot_products this person_index beta_vector)
       (\<lambda>(scores, max_dot_product).
          Inr (exp_loop max_dot_product [0..<length scores] (scores, Finite 0)))"

definition choice_probabilities :: "DCMTable \<Rightarrow> int \<Rightarrow> vec \<Rightarrow> error + double list" where
  "choice_probabilities this person_index beta_vector =
     and_then (unnormalized_probabilities this person_index beta_vector)
       (\<lambda>(weights, normalizing_sum).
          Inr (normalize_loop normalizing_sum [0..<length weights] weights))"

text \<open>
  \<open>choice_probability\<close>, lines 214 to 221: the vector is computed first, then indexed
  (without a check) at the person's stored choice.
\<close>

definition choice_probability :: "DCMTable \<Rightarrow> int \<Rightarrow> vec \<Rightarrow> error + double" where
  "choice_probability this person_index beta_vector =
     and_then (choice_probabilities this person_index beta_vector) (\<lambda>probabilities.
     and_then (get_discrete_choice_index this person_index) (\<lambda>k.
       if 0 \<le> k \<and> nat k < length probabilities then Inr (probabilities ! nat k)
       else Inl Undefined_Behaviour))"

subsection \<open>A worked example\<close>

text \<open>
  The scenario of the spec: two people; person 0 has the alternatives \<open>[1, 0]\<close> and
  \<open>[0, 1]\<close> and chose the first, person 1 has \<open>[1, 1]\<close>, \<open>[0, 0]\<close> and \<open>[2, 0]\<close>
  and chose the third. The random source always returns 0. \<open>example_table\<close> is the
  object that \<open>Init\<close> builds from these tables.
\<close>

definition example_rnd :: "nat \<Rightarrow> nat" where
  "example_rnd i = 0"

definition example_attributes :: Table where
  "example_attributes = [[1, 0], [0, 1], [1, 1], [0, 0], [2, 0]]"

definition example_decisions :: Table where
  "example_decisions = [[1], [3]]"

definition example_alternatives :: Table where
  "example_alternatives = [[2], [3]]"

definition example_table :: DCMTable where
  "example_table =
     \<lparr>attribute_table = [[1, 0], [0, 1], [1, 1], [0, 0], [2, 0]],
      attribute_dimensions = [2],
      decisions_table = [[0], [2]],
      num_alternatives_table = [[2], [3]],
      cumulative_num_discrete_choices = [0, 2],
      shuffled_indices_for_person = [1, 0],
      num_people_per_discrete_choice = [1, 0, 1]\<rparr>"



section \<open>Properties\<close>

subsection \<open>Sequencing and the loops of \<open>Init\<close>\<close>

lemma and_then_Inr_iff: "and_then m f = Inr y \<longleftrightarrow> (\<exists>x. m = Inr x \<and> f x = Inr y)"
  by (cases m) auto

lemma and_then_Inl_iff: "and_then m f = Inl e \<longleftrightarrow> m = Inl e \<or> (\<exists>x. m = Inr x \<and> f x = Inl e)"
  by (cases m) auto

lemma entry_as_int_bind:
  "and_then (get t i) (\<lambda>point. and_then (vec_at point 0) (\<lambda>x. and_then (static_cast_int x) f))
     = and_then (entry_as_int t i) f"
proof (cases "get t i")
  case (Inl e)
  then show ?thesis by (simp add: entry_as_int_def data_at_0_def)
next
  case (Inr point)
  then show ?thesis
    by (cases "vec_at point 0") (simp_all add: entry_as_int_def data_at_0_def)
qed

lemma int_add_Inr_iff: "int_add a b = Inr s \<longleftrightarrow> s = a + b \<and> in_int_range (a + b)"
  by (auto simp: int_add_def)

lemma cumulative_loop_step:
  "cumulative_loop alts (i # is) c =
     and_then (entry_as_int alts (int i - 1)) (\<lambda>k.
     and_then (int_add (c ! (i - 1)) k) (\<lambda>s. cumulative_loop alts is (c[i := s])))"
  by (simp add: entry_as_int_bind)

lemma cumulative_loop_spec:
  assumes "cumulative_loop alts [a..<n] c = Inr c'" and "0 < a" and "length c = n"
  shows "length c' = n \<and> (\<forall>p<a. c' ! p = c ! p) \<and>
         (\<forall>i. a \<le> i \<and> i < n \<longrightarrow>
            (\<exists>k. entry_as_int alts (int i - 1) = Inr k \<and> c' ! i = c' ! (i - 1) + k))"
  using assms
proof (induction "n - a" arbitrary: a c)
  case 0
  then show ?case by auto
next
  case (Suc d)
  then have lt: "a < n" by simp
  from Suc.prems(1) lt obtain k s where
    k: "entry_as_int alts (int a - 1) = Inr k" and
    s: "s = c ! (a - 1) + k" and
    rest: "cumulative_loop alts [Suc a..<n] (c[a := s]) = Inr c'"
    by (auto simp: upt_conv_Cons cumulative_loop_step and_then_Inr_iff int_add_Inr_iff
             simp del: cumulative_loop.simps)
  have d: "d = n - Suc a" using Suc.hyps(2) by simp
  have IH: "length c' = n \<and> (\<forall>p<Suc a. c' ! p = c[a := s] ! p) \<and>
         (\<forall>i. Suc a \<le> i \<and> i < n \<longrightarrow>
            (\<exists>k. entry_as_int alts (int i - 1) = Inr k \<and> c' ! i = c' ! (i - 1) + k))"
    using Suc.hyps(1)[OF d rest] Suc.prems(3) by simp
  have at_a: "c' ! a = s" using IH lt Suc.prems(3) by simp
  have below: "\<forall>p<a. c' ! p = c ! p" using IH by (simp add: less_Suc_eq)
  have prev: "c' ! (a - 1) = c ! (a - 1)" using below Suc.prems(2) by simp
  have here: "\<exists>k. entry_as_int alts (int a - 1) = Inr k \<and> c' ! a = c' ! (a - 1) + k"
    using k s at_a prev by simp
  show ?case
  proof (intro conjI allI impI)
    show "length c' = n" using IH by simp
    fix p assume "p < a" then show "c' ! p = c ! p" using below by simp
  next
    fix i assume "a \<le> i \<and> i < n"
    then consider "i = a" | "Suc a \<le> i \<and> i < n" by linarith
    then show "\<exists>k. entry_as_int alts (int i - 1) = Inr k \<and> c' ! i = c' ! (i - 1) + k"
      using here IH by cases auto
  qed
qed


lemma subtract_ones_step:
  "subtract_ones (i # is) t =
     (if i < length t \<and> t ! i \<noteq> []
      then subtract_ones is (t[i := (t ! i)[0 := t ! i ! 0 - 1]])
      else Inl Undefined_Behaviour)"
  by (simp add: get_def n_entries_def vec_at_def)

lemma subtract_ones_spec:
  assumes "subtract_ones is t = Inr t'" and "distinct is"
  shows "length t' = length t \<and> (\<forall>i\<in>set is. i < length t \<and> t ! i \<noteq> []) \<and>
         (\<forall>p<length t. t' ! p = (if p \<in> set is then (t ! p)[0 := t ! p ! 0 - 1] else t ! p))"
  using assms
proof (induction "is" arbitrary: t)
  case Nil
  then show ?case by simp
next
  case (Cons i "is")
  let ?t1 = "t[i := (t ! i)[0 := t ! i ! 0 - 1]]"
  from Cons.prems(1) have i: "i < length t" "t ! i \<noteq> []"
    and rest: "subtract_ones is ?t1 = Inr t'"
    by (auto simp: subtract_ones_step simp del: subtract_ones.simps split: if_splits)
  from Cons.prems(2) have ni: "i \<notin> set is" and dis: "distinct is" by simp_all
  note IH = Cons.IH[OF rest dis]
  have other: "?t1 ! j = t ! j" if "j \<in> set is" for j
    using that ni by (cases "j = i") simp_all
  show ?case
  proof (intro conjI ballI allI impI)
    show "length t' = length t" using IH by simp
  next
    fix j assume "j \<in> set (i # is)"
    then show "j < length t" using i IH by auto
  next
    fix j assume j: "j \<in> set (i # is)"
    show "t ! j \<noteq> []"
    proof (cases "j = i")
      case True then show ?thesis using i by simp
    next
      case False
      with j have "j \<in> set is" by simp
      then show ?thesis using IH other by fastforce
    qed
  next
    fix p assume p: "p < length t"
    show "t' ! p = (if p \<in> set (i # is) then (t ! p)[0 := t ! p ! 0 - 1] else t ! p)"
    proof (cases "p = i")
      case True
      then show ?thesis using IH ni i by simp
    next
      case False
      then have "?t1 ! p = t ! p" by simp
      then show ?thesis using IH p False by simp
    qed
  qed
qed

lemma subtract_ones_all:
  assumes "subtract_ones [0..<length t] t = Inr t'"
  shows "t' = map (\<lambda>point. point[0 := point ! 0 - 1]) t \<and> (\<forall>point\<in>set t. point \<noteq> [])"
proof -
  have s: "length t' = length t \<and> (\<forall>i\<in>set [0..<length t]. i < length t \<and> t ! i \<noteq> []) \<and>
         (\<forall>p<length t. t' ! p =
            (if p \<in> set [0..<length t] then (t ! p)[0 := t ! p ! 0 - 1] else t ! p))"
    using subtract_ones_spec[OF assms] by simp
  have "t' = map (\<lambda>point. point[0 := point ! 0 - 1]) t"
    using s by (intro nth_equalityI) simp_all
  moreover have "\<forall>point\<in>set t. point \<noteq> []"
    using s by (auto simp: in_set_conv_nth)
  ultimately show ?thesis by simp
qed

lemma max_loop_step:
  "max_loop alts (i # is) m = and_then (entry_as_int alts (int i)) (\<lambda>k. max_loop alts is (max m k))"
  by (simp add: entry_as_int_bind)

lemma max_loop_spec:
  assumes "max_loop alts is m0 = Inr m"
  shows "(\<forall>i\<in>set is. \<exists>k. entry_as_int alts (int i) = Inr k \<and> k \<le> m) \<and> m0 \<le> m \<and>
         (m = m0 \<or> (\<exists>i\<in>set is. entry_as_int alts (int i) = Inr m))"
  using assms
proof (induction "is" arbitrary: m0)
  case Nil
  then show ?case by simp
next
  case (Cons i "is")
  from Cons.prems obtain k where k: "entry_as_int alts (int i) = Inr k"
    and rest: "max_loop alts is (max m0 k) = Inr m"
    by (auto simp: max_loop_step and_then_Inr_iff simp del: max_loop.simps)
  note IH = Cons.IH[OF rest]
  have "k \<le> m" "m0 \<le> m" using IH by simp_all
  moreover have "m = m0 \<or> m = k \<or> (\<exists>i\<in>set is. entry_as_int alts (int i) = Inr m)"
    using IH by (auto simp: max_def split: if_splits)
  ultimately show ?case using k IH by auto
qed

lemma sum_list_bump:
  fixes b :: "int list"
  shows "j < length b \<Longrightarrow> sum_list (b[j := b ! j + 1]) = sum_list b + 1"
proof (induction b arbitrary: j)
  case Nil
  then show ?case by simp
next
  case (Cons x b)
  then show ?case by (cases j) simp_all
qed

lemma get_discrete_choice_index_buckets:
  "get_discrete_choice_index (this\<lparr>num_people_per_discrete_choice := b\<rparr>) i =
     get_discrete_choice_index this i"
  by (simp add: get_discrete_choice_index_def)

lemma count_loop_spec:
  assumes "count_loop is this = Inr this'"
  shows "\<exists>b'. this' = this\<lparr>num_people_per_discrete_choice := b'\<rparr> \<and>
           length b' = length (num_people_per_discrete_choice this) \<and>
           (\<forall>i\<in>set is. \<exists>k. get_discrete_choice_index this (int i) = Inr k \<and> 0 \<le> k \<and>
               nat k < length (num_people_per_discrete_choice this)) \<and>
           (\<forall>k<length b'. b' ! k = num_people_per_discrete_choice this ! k +
               int (length (filter (\<lambda>i. get_discrete_choice_index this (int i) = Inr (int k)) is))) \<and>
           sum_list b' = sum_list (num_people_per_discrete_choice this) + int (length is)"
  using assms
proof (induction "is" arbitrary: this)
  case Nil
  then show ?case
    by (intro exI[of _ "num_people_per_discrete_choice this"]) simp
next
  case (Cons i "is")
  let ?b = "num_people_per_discrete_choice this"
  from Cons.prems obtain k where k: "get_discrete_choice_index this (int i) = Inr k"
    and range: "0 \<le> k" "nat k < length ?b"
    and rest: "count_loop is (this\<lparr>num_people_per_discrete_choice := ?b[nat k := ?b ! nat k + 1]\<rparr>)
                 = Inr this'"
    by (auto simp: and_then_Inr_iff split: if_splits)
  from Cons.IH[OF rest] obtain b' where
    t: "this' = this\<lparr>num_people_per_discrete_choice := b'\<rparr>" and
    len: "length b' = length ?b" and
    idx: "\<forall>i\<in>set is. \<exists>k. get_discrete_choice_index this (int i) = Inr k \<and> 0 \<le> k \<and> nat k < length ?b" and
    cnt: "\<forall>j<length b'. b' ! j = ?b[nat k := ?b ! nat k + 1] ! j +
               int (length (filter (\<lambda>i. get_discrete_choice_index this (int i) = Inr (int j)) is))" and
    sum: "sum_list b' = sum_list (?b[nat k := ?b ! nat k + 1]) + int (length is)"
    by (auto simp: get_discrete_choice_index_buckets)
  have cnt': "\<forall>j<length b'. b' ! j = ?b ! j +
               int (length (filter (\<lambda>i. get_discrete_choice_index this (int i) = Inr (int j)) (i # is)))"
  proof (intro allI impI)
    fix j assume j: "j < length b'"
    show "b' ! j = ?b ! j +
               int (length (filter (\<lambda>i. get_discrete_choice_index this (int i) = Inr (int j)) (i # is)))"
    proof (cases "j = nat k")
      case True
      then have "int j = k" using range by simp
      then show ?thesis using cnt j len k True by simp
    next
      case False
      then have "int j \<noteq> k" by auto
      then show ?thesis using cnt j len k False by simp
    qed
  qed
  have sum': "sum_list b' = sum_list ?b + int (length (i # is))"
    using sum range by (simp add: sum_list_bump)
  show ?case using t len idx cnt' sum' k range by auto
qed

subsection \<open>The shuffle permutes\<close>

lemma shuffle_loop_mset:
  "\<forall>i\<in>set is. i < length xs \<Longrightarrow> mset (shuffle_loop rnd is xs) = mset xs"
proof (induction "is" arbitrary: xs)
  case Nil
  then show ?case by simp
next
  case (Cons i "is")
  let ?j = "rnd i mod (i + 1)"
  have i: "i < length xs" using Cons.prems by simp
  have "?j < i + 1" by simp
  then have j: "?j < length xs" using i by linarith
  have "mset (xs[i := xs ! ?j, ?j := xs ! i]) = mset xs"
    using mset_swap[OF j i] by simp
  moreover have "\<forall>k\<in>set is. k < length (xs[i := xs ! ?j, ?j := xs ! i])"
    using Cons.prems by simp
  ultimately show ?case using Cons.IH by (simp add: Let_def)
qed

lemma random_shuffle_mset: "mset (random_shuffle rnd xs) = mset xs"
  by (simp add: random_shuffle_def shuffle_loop_mset)

lemma length_random_shuffle: "length (random_shuffle rnd xs) = length xs"
  using random_shuffle_mset[of rnd xs] by (metis size_mset)

lemma set_random_shuffle: "set (random_shuffle rnd xs) = set xs"
  using random_shuffle_mset[of rnd xs] by (metis set_mset_mset)

subsection \<open>What \<open>Init\<close> establishes\<close>

lemma Init_Inr:
  assumes "Init rnd A dims D N = Inr t"
  shows "\<exists>ds c mx. subtract_ones [0..<length D] D = Inr ds \<and>
           cumulative_offsets N (length D) = Inr c \<and>
           last_total N c = Inr (n_entries A) \<and>
           max_loop N [0..<length N] 0 = Inr mx \<and>
           count_loop [0..<length D]
             \<lparr>attribute_table = A, attribute_dimensions = dims, decisions_table = ds,
              num_alternatives_table = N, cumulative_num_discrete_choices = c,
              shuffled_indices_for_person = random_shuffle rnd (map int [0..<length D]),
              num_people_per_discrete_choice = replicate (nat mx) 0\<rparr> = Inr t"
proof -
  from assms obtain ds where ds: "subtract_ones [0..<length D] D = Inr ds"
    by (auto simp: Init_def and_then_Inr_iff)
  then have len: "length ds = length D"
    using subtract_ones_all[OF ds] by simp
  from assms ds len show ?thesis
    by (auto simp: Init_def Let_def and_then_Inr_iff length_random_shuffle split: if_splits)
qed

text \<open>What a successful \<open>Init\<close> leaves in the object.\<close>

lemma Init_fields:
  assumes "Init rnd A dims D N = Inr t"
  shows "attribute_table t = A" and "attribute_dimensions t = dims"
    and "decisions_table t = map (\<lambda>point. point[0 := point ! 0 - 1]) D"
    and "num_alternatives_table t = N"
    and "cumulative_offsets N (length D) = Inr (cumulative_num_discrete_choices t)"
    and "last_total N (cumulative_num_discrete_choices t) = Inr (n_entries A)"
    and "shuffled_indices_for_person t = random_shuffle rnd (map int [0..<length D])"
    and "\<exists>mx. max_loop N [0..<length N] 0 = Inr mx \<and>
           length (num_people_per_discrete_choice t) = nat mx"
proof -
  from Init_Inr[OF assms] obtain ds c mx where
    ds: "subtract_ones [0..<length D] D = Inr ds" and
    c: "cumulative_offsets N (length D) = Inr c" and
    lt: "last_total N c = Inr (n_entries A)" and
    mx: "max_loop N [0..<length N] 0 = Inr mx" and
    cl: "count_loop [0..<length D]
             \<lparr>attribute_table = A, attribute_dimensions = dims, decisions_table = ds,
              num_alternatives_table = N, cumulative_num_discrete_choices = c,
              shuffled_indices_for_person = random_shuffle rnd (map int [0..<length D]),
              num_people_per_discrete_choice = replicate (nat mx) 0\<rparr> = Inr t"
    by blast
  from count_loop_spec[OF cl] obtain b' where
    t: "t = \<lparr>attribute_table = A, attribute_dimensions = dims, decisions_table = ds,
              num_alternatives_table = N, cumulative_num_discrete_choices = c,
              shuffled_indices_for_person = random_shuffle rnd (map int [0..<length D]),
              num_people_per_discrete_choice = b'\<rparr>" and
    len: "length b' = nat mx"
    by auto
  show "attribute_table t = A" "attribute_dimensions t = dims" "num_alternatives_table t = N"
    "shuffled_indices_for_person t = random_shuffle rnd (map int [0..<length D])"
    by (simp_all add: t)
  show "decisions_table t = map (\<lambda>point. point[0 := point ! 0 - 1]) D"
    using subtract_ones_all[OF ds] by (simp add: t)
  show "cumulative_offsets N (length D) = Inr (cumulative_num_discrete_choices t)"
    using c by (simp add: t)
  show "last_total N (cumulative_num_discrete_choices t) = Inr (n_entries A)"
    using lt by (simp add: t)
  show "\<exists>mx. max_loop N [0..<length N] 0 = Inr mx \<and>
           length (num_people_per_discrete_choice t) = nat mx"
    using mx len by (simp add: t)
qed

subsection \<open>Cumulative offsets\<close>

lemma cumulative_offsets_spec:
  assumes "cumulative_offsets N n = Inr c"
  shows "0 < n \<and> length c = n \<and> c ! 0 = 0 \<and>
         (\<forall>i. 1 \<le> i \<and> i < n \<longrightarrow>
            (\<exists>k. entry_as_int N (int i - 1) = Inr k \<and> c ! i = c ! (i - 1) + k))"
proof -
  from assms have n: "0 < n"
    and loop: "cumulative_loop N [1..<n] ((replicate n 0)[0 := 0]) = Inr c"
    by (auto simp: cumulative_offsets_def split: if_splits)
  have "length c = n \<and> (\<forall>p<1. c ! p = (replicate n 0)[0 := 0] ! p) \<and>
         (\<forall>i. 1 \<le> i \<and> i < n \<longrightarrow>
            (\<exists>k. entry_as_int N (int i - 1) = Inr k \<and> c ! i = c ! (i - 1) + k))"
    using cumulative_loop_spec[OF loop] by simp
  then show ?thesis using n by simp
qed

lemma last_total_spec:
  assumes "last_total N c = Inr s"
  shows "c \<noteq> [] \<and> (\<exists>k. entry_as_int N (int (length c) - 1) = Inr k \<and>
            s = c ! (length c - 1) + k)"
  using assms
  by (auto simp: last_total_def entry_as_int_bind and_then_Inr_iff int_add_Inr_iff
           split: if_splits)


lemma example_Init:
  "Init example_rnd example_attributes [2] example_decisions example_alternatives =
     Inr example_table"
  unfolding example_attributes_def example_decisions_def example_alternatives_def
    example_table_def
  by code_simp

lemmas example_accessors =
  example_table_def num_people_def num_discrete_choices_def entry_as_int_def data_at_0_def
  get_def n_entries_def vec_at_def static_cast_int_def in_int_range_def INT_MIN_def
  INT_MAX_def get_discrete_choice_index_def total_num_discrete_choices_def


text \<open>
  Claim C3. After a successful \<open>Init\<close> there is at least one person, the first cumulative
  offset is 0, the offset of each person but the last plus that person's number of
  alternatives is the next offset, and the last offset plus the last person's number of
  alternatives is the number of entries of the attribute table.
\<close>

theorem Init_cumulative_offsets:
  assumes "Init rnd A dims D N = Inr t"
  shows "0 < num_people t \<and>
         cumulative_num_discrete_choices t ! 0 = 0 \<and>
         (\<forall>p. 0 \<le> p \<and> p < num_people t - 1 \<longrightarrow>
            (\<exists>k. num_discrete_choices t p = Inr k \<and>
                 cumulative_num_discrete_choices t ! nat p + k =
                 cumulative_num_discrete_choices t ! nat (p + 1))) \<and>
         (\<exists>k. num_discrete_choices t (num_people t - 1) = Inr k \<and>
              cumulative_num_discrete_choices t ! nat (num_people t - 1) + k =
              n_entries (attribute_table t))"
proof -
  let ?c = "cumulative_num_discrete_choices t"
  note f = Init_fields[OF assms]
  note cs = cumulative_offsets_spec[OF f(5)]
  note ls = last_total_spec[OF f(6)]
  have np: "num_people t = int (length D)" using cs by (simp add: num_people_def)
  have ndc: "num_discrete_choices t p = entry_as_int N p" for p
    by (simp add: num_discrete_choices_def f(4))
  have step: "\<exists>k. num_discrete_choices t p = Inr k \<and> ?c ! nat p + k = ?c ! nat (p + 1)"
    if "0 \<le> p \<and> p < num_people t - 1" for p
  proof -
    from that have i: "1 \<le> nat p + 1 \<and> nat p + 1 < length D" using np by linarith
    from cs i obtain k where "entry_as_int N (int (nat p + 1) - 1) = Inr k"
      "?c ! (nat p + 1) = ?c ! (nat p + 1 - 1) + k" by blast
    moreover have "int (nat p + 1) - 1 = p" using that by simp
    moreover have "nat (p + 1) = nat p + 1" using that by (simp add: nat_add_distrib)
    ultimately show ?thesis by (simp add: ndc)
  qed
  have last: "\<exists>k. num_discrete_choices t (num_people t - 1) = Inr k \<and>
              ?c ! nat (num_people t - 1) + k = n_entries (attribute_table t)"
  proof -
    from ls obtain k where "entry_as_int N (int (length ?c) - 1) = Inr k"
      "n_entries A = ?c ! (length ?c - 1) + k" by blast
    moreover have "nat (num_people t - 1) = length ?c - 1" by (simp add: num_people_def nat_diff_distrib')
    ultimately show ?thesis by (simp add: ndc num_people_def f(1))
  qed
  show ?thesis using cs np step last by simp
qed



theorem Init_cumulative_offsets_witness:
  "Init example_rnd example_attributes [2] example_decisions example_alternatives =
     Inr example_table \<and>
   cumulative_num_discrete_choices example_table ! 0 = 0 \<and>
   num_discrete_choices example_table 0 = Inr 2 \<and>
   cumulative_num_discrete_choices example_table ! 0 + 2 =
     cumulative_num_discrete_choices example_table ! 1 \<and>
   num_discrete_choices example_table 1 = Inr 3 \<and>
   cumulative_num_discrete_choices example_table ! 1 + 3 =
     n_entries (attribute_table example_table)"
  using Init_cumulative_offsets[OF example_Init] example_Init
  by (simp add: example_accessors)

subsection \<open>\<open>total_num_discrete_choices\<close>\<close>

lemma finite_results:
  fixes f :: "int \<Rightarrow> error + int"
  shows "finite {k. \<exists>p. 0 \<le> p \<and> p < n \<and> f p = Inr k}"
proof -
  have "{k. \<exists>p. 0 \<le> p \<and> p < n \<and> f p = Inr k} \<subseteq> (\<lambda>p. projr (f p)) ` {0..<n}"
    by force
  then show ?thesis by (rule finite_subset) simp
qed

lemma max_loop_all:
  assumes "max_loop N [0..<length N] 0 = Inr mx"
  shows "0 \<le> mx" and "\<And>p k. 0 \<le> p \<Longrightarrow> p < n_entries N \<Longrightarrow> entry_as_int N p = Inr k \<Longrightarrow> k \<le> mx"
    and "mx = 0 \<or> (\<exists>p. 0 \<le> p \<and> p < n_entries N \<and> entry_as_int N p = Inr mx)"
proof -
  note s = max_loop_spec[OF assms]
  show "0 \<le> mx" using s by simp
  show "k \<le> mx" if "0 \<le> p" "p < n_entries N" "entry_as_int N p = Inr k" for p k
  proof -
    from that have "nat p \<in> set [0..<length N]" by (simp add: n_entries_def)
    with s obtain k' where "entry_as_int N (int (nat p)) = Inr k'" "k' \<le> mx" by blast
    with that show ?thesis by simp
  qed
  show "mx = 0 \<or> (\<exists>p. 0 \<le> p \<and> p < n_entries N \<and> entry_as_int N p = Inr mx)"
  proof (cases "mx = 0")
    case True then show ?thesis by simp
  next
    case False
    with s obtain i where "i < length N" "entry_as_int N (int i) = Inr mx" by auto
    then have "0 \<le> int i \<and> int i < n_entries N \<and> entry_as_int N (int i) = Inr mx"
      by (simp add: n_entries_def)
    then show ?thesis by blast
  qed
qed

text \<open>
  Claim C1, as amended. After a successful \<open>Init\<close> the accessor
  \<open>total_num_discrete_choices\<close> returns the number of buckets of
  \<open>num_people_per_discrete_choice_\<close>, which is the largest number of alternatives found
  in the table of the numbers of alternatives, or 0 when none is positive.
\<close>

theorem total_num_discrete_choices_bucket_count:
  assumes "Init rnd A dims D N = Inr t"
  shows "total_num_discrete_choices t = int (length (num_people_per_discrete_choice t)) \<and>
         total_num_discrete_choices t =
           Max (insert 0 {k. \<exists>p. 0 \<le> p \<and> p < n_entries (num_alternatives_table t) \<and>
                              num_discrete_choices t p = Inr k})"
proof -
  let ?S = "{k. \<exists>p. 0 \<le> p \<and> p < n_entries (num_alternatives_table t) \<and>
                     num_discrete_choices t p = Inr k}"
  note f = Init_fields[OF assms]
  from f(8) obtain mx where mx: "max_loop N [0..<length N] 0 = Inr mx"
    and len: "length (num_people_per_discrete_choice t) = nat mx" by blast
  note m = max_loop_all[OF mx]
  have ndc: "num_discrete_choices t p = entry_as_int N p" for p
    by (simp add: num_discrete_choices_def f(4))
  have total: "total_num_discrete_choices t = mx"
    using len m(1) by (simp add: total_num_discrete_choices_def)
  have fin: "finite (insert 0 ?S)" using finite_results by simp
  have ub: "k \<le> mx" if "k \<in> insert 0 ?S" for k
    using that m(1) m(2) by (auto simp: ndc f(4))
  have mem: "mx \<in> insert 0 ?S"
    using m(3) by (auto simp: ndc f(4))
  have "Max (insert 0 ?S) = mx"
    using fin ub mem by (rule Max_eqI)
  then show ?thesis using total by (simp add: total_num_discrete_choices_def)
qed

text \<open>In the example the largest number of alternatives is 3.\<close>

theorem total_num_discrete_choices_bucket_count_witness:
  "Init example_rnd example_attributes [2] example_decisions example_alternatives =
     Inr example_table \<and>
   total_num_discrete_choices example_table = 3 \<and>
   Max (insert 0 {k. \<exists>p. 0 \<le> p \<and> p < n_entries (num_alternatives_table example_table) \<and>
                       num_discrete_choices example_table p = Inr k}) = 3"
  using total_num_discrete_choices_bucket_count[OF example_Init] example_Init
  by (simp add: total_num_discrete_choices_def example_table_def)

text \<open>
  Claim C1, as stated, fails on the example: the two people have 2 and 3 alternatives, the
  attribute table has 5 entries, and the accessor returns 3.
\<close>

theorem total_num_discrete_choices_counterexample:
  "Init example_rnd example_attributes [2] example_decisions example_alternatives =
     Inr example_table \<and>
   total_num_discrete_choices example_table = 3 \<and>
   n_entries (attribute_table example_table) = 5 \<and>
   num_discrete_choices example_table 0 = Inr 2 \<and>
   num_discrete_choices example_table 1 = Inr 3 \<and>
   total_num_discrete_choices example_table \<noteq> n_entries (attribute_table example_table)"
  using example_Init by (simp add: example_accessors)

subsection \<open>The shuffled order\<close>

text \<open>
  Claim C9. After a successful \<open>Init\<close>, whatever the random source returns, the values
  of \<open>shuffled_indices_for_person\<close> at the positions \<open>0 .. num_people - 1\<close> are
  exactly the numbers \<open>0 .. num_people - 1\<close>; the vector has \<open>num_people\<close> elements
  and no element twice.
\<close>

theorem Init_shuffled_permutation:
  assumes "Init rnd A dims D N = Inr t"
  shows "shuffled_indices_for_person_at t ` {0..<num_people t} = Inr ` {0..<num_people t} \<and>
         distinct (shuffled_indices_for_person t) \<and>
         int (length (shuffled_indices_for_person t)) = num_people t"
proof -
  let ?sh = "shuffled_indices_for_person t"
  let ?n = "length D"
  note f = Init_fields[OF assms]
  have np: "num_people t = int ?n"
    using cumulative_offsets_spec[OF f(5)] by (simp add: num_people_def)
  have sh: "?sh = random_shuffle rnd (map int [0..<?n])" by (rule f(7))
  have len: "length ?sh = ?n" by (simp add: sh length_random_shuffle)
  have set: "set ?sh = {0..<int ?n}"
    by (simp add: sh set_random_shuffle image_int_atLeastLessThan)
  have "mset ?sh = mset (map int [0..<?n])" by (simp add: sh random_shuffle_mset)
  moreover have "distinct (map int [0..<?n])" by (simp add: distinct_map)
  ultimately have dist: "distinct ?sh" by (metis mset_eq_imp_distinct_iff)
  have acc: "shuffled_indices_for_person_at t i = Inr (?sh ! nat i)" if "i \<in> {0..<int ?n}" for i
  proof -
    from that have "0 \<le> i" "nat i < length ?sh" using len by auto
    then show ?thesis by (simp add: shuffled_indices_for_person_at_def)
  qed
  have "shuffled_indices_for_person_at t ` {0..<int ?n} = Inr ` set ?sh"
  proof (intro equalityI subsetI)
    fix y assume "y \<in> shuffled_indices_for_person_at t ` {0..<int ?n}"
    then obtain i where i: "i \<in> {0..<int ?n}" and y: "y = Inr (?sh ! nat i)"
      using acc by auto
    from i len have "nat i < length ?sh" by auto
    then have "?sh ! nat i \<in> set ?sh" by simp
    then show "y \<in> Inr ` set ?sh" using y by simp
  next
    fix y :: "error + int" assume "y \<in> Inr ` set ?sh"
    then obtain k where k: "k < length ?sh" and y: "y = Inr (?sh ! k)"
      by (auto simp: in_set_conv_nth)
    from k len have "int k \<in> {0..<int ?n}" by simp
    moreover from this have "shuffled_indices_for_person_at t (int k) = y"
      using acc[of "int k"] y by simp
    ultimately show "y \<in> shuffled_indices_for_person_at t ` {0..<int ?n}" by force
  qed
  then show ?thesis using set dist len np by simp
qed

theorem Init_shuffled_permutation_witness:
  "Init example_rnd example_attributes [2] example_decisions example_alternatives =
     Inr example_table \<and>
   shuffled_indices_for_person_at example_table ` {0..<2} = Inr ` {0..<2}"
  using Init_shuffled_permutation[OF example_Init] example_Init
  by (simp add: num_people_def example_table_def)

subsection \<open>No people\<close>

text \<open>
  Claim C10. With an empty decisions table \<open>Init\<close> leaves defined behaviour instead of
  reporting an error: the write to element 0 of the empty vector of cumulative counts is
  out of bounds, and so is the read of entry \<open>-1\<close> of the table of the numbers of
  alternatives that would follow.
\<close>

theorem Init_no_people:
  "Init rnd A dims [] N = Inl Undefined_Behaviour \<and>
   cumulative_offsets N 0 = Inl Undefined_Behaviour \<and>
   last_total N [] = Inl Undefined_Behaviour"
  by (simp add: Init_def cumulative_offsets_def last_total_def get_def)

theorem Init_no_people_witness:
  "Init example_rnd example_attributes [2] [] [] = Inl Undefined_Behaviour"
  using Init_no_people[of example_rnd example_attributes "[2]" "[]"] by simp

subsection \<open>Zero-based decisions\<close>

lemma static_cast_int_pred:
  assumes "static_cast_int x = Inr d" and "1 \<le> d"
  shows "static_cast_int (x - 1) = Inr (d - 1)"
proof -
  from assms(1) have d: "d = (if 0 \<le> x then \<lfloor>x\<rfloor> else \<lceil>x\<rceil>)" and r: "in_int_range d"
    by (auto simp: static_cast_int_def Let_def split: if_splits)
  have pos: "0 \<le> x"
  proof (rule ccontr)
    assume "\<not> 0 \<le> x"
    then have "\<lceil>x\<rceil> \<le> 0" and "d = \<lceil>x\<rceil>" using d by (simp_all add: ceiling_le_zero)
    with assms(2) show False by simp
  qed
  then have fl: "\<lfloor>x\<rfloor> = d" using d by simp
  then have "1 \<le> x" using assms(2) by linarith
  then have "0 \<le> x - 1" by simp
  moreover have "\<lfloor>x - 1\<rfloor> = d - 1" using fl by simp
  moreover have "in_int_range (d - 1)" using r assms(2) by (simp add: in_int_range_def INT_MIN_def)
  ultimately show ?thesis by (simp add: static_cast_int_def)
qed

lemma data_at_0_decrement:
  assumes "data_at_0 D p = Inr x"
  shows "data_at_0 (map (\<lambda>point. point[0 := point ! 0 - 1]) D) p = Inr (x - 1)"
  using assms
  by (auto simp: data_at_0_def get_def n_entries_def vec_at_def and_then_Inr_iff split: if_splits)

text \<open>
  Claim C5. A successful \<open>Init\<close> stores the decisions table with component 0 of every
  entry lowered by exactly 1 and nothing else changed. Afterwards, for a person whose input
  decision \<open>d\<close> (read as an \<open>int\<close>) lies in \<open>1 .. num_discrete_choices\<close>,
  \<open>get_discrete_choice_index\<close> returns \<open>d - 1\<close>, which is at least 0 and below the
  person's number of alternatives.
\<close>

theorem Init_decisions_zero_based:
  assumes "Init rnd A dims D N = Inr t"
  shows "decisions_table t = map (\<lambda>point. point[0 := point ! 0 - 1]) D \<and>
         (\<forall>p. 0 \<le> p \<and> p < num_people t \<longrightarrow>
            (\<exists>x. data_at_0 D p = Inr x \<and> data_at_0 (decisions_table t) p = Inr (x - 1))) \<and>
         (\<forall>p d n. 0 \<le> p \<and> p < num_people t \<and> entry_as_int D p = Inr d \<and>
                  num_discrete_choices t p = Inr n \<and> 1 \<le> d \<and> d \<le> n \<longrightarrow>
            get_discrete_choice_index t p = Inr (d - 1) \<and> 0 \<le> d - 1 \<and> d - 1 < n)"
proof -
  note f = Init_fields[OF assms]
  from Init_Inr[OF assms] obtain ds where "subtract_ones [0..<length D] D = Inr ds" by blast
  then have nonempty: "\<forall>point\<in>set D. point \<noteq> []" using subtract_ones_all by blast
  have np: "num_people t = int (length D)"
    using cumulative_offsets_spec[OF f(5)] by (simp add: num_people_def)
  have read: "\<exists>x. data_at_0 D p = Inr x \<and> data_at_0 (decisions_table t) p = Inr (x - 1)"
    if "0 \<le> p \<and> p < num_people t" for p
  proof -
    from that np have "nat p < length D" by auto
    with nonempty have "D ! nat p \<noteq> []" by simp
    with that np have "data_at_0 D p = Inr (D ! nat p ! 0)"
      by (simp add: data_at_0_def get_def n_entries_def vec_at_def)
    then show ?thesis using data_at_0_decrement by (simp add: f(3))
  qed
  have idx: "get_discrete_choice_index t p = Inr (d - 1) \<and> 0 \<le> d - 1 \<and> d - 1 < n"
    if "0 \<le> p \<and> p < num_people t \<and> entry_as_int D p = Inr d \<and>
        num_discrete_choices t p = Inr n \<and> 1 \<le> d \<and> d \<le> n" for p d n
  proof -
    from that obtain x where x: "data_at_0 D p = Inr x" and c: "static_cast_int x = Inr d"
      by (auto simp: entry_as_int_def and_then_Inr_iff)
    have "data_at_0 (decisions_table t) p = Inr (x - 1)"
      using data_at_0_decrement[OF x] by (simp add: f(3))
    moreover have "static_cast_int (x - 1) = Inr (d - 1)"
      using static_cast_int_pred[OF c] that by simp
    ultimately have "get_discrete_choice_index t p = Inr (d - 1)"
      by (simp add: get_discrete_choice_index_def entry_as_int_def)
    then show ?thesis using that by simp
  qed
  show ?thesis using f(3) read idx by blast
qed

theorem Init_decisions_zero_based_witness:
  "Init example_rnd example_attributes [2] example_decisions example_alternatives =
     Inr example_table \<and>
   decisions_table example_table = [[0], [2]] \<and>
   entry_as_int example_decisions 1 = Inr 3 \<and>
   num_discrete_choices example_table 1 = Inr 3 \<and>
   get_discrete_choice_index example_table 1 = Inr 2"
  using Init_decisions_zero_based[OF example_Init] example_Init
  by (simp add: example_accessors example_decisions_def)


subsection \<open>People per discrete choice\<close>

lemma card_int_range:
  "card {p. 0 \<le> p \<and> p < int n \<and> Q p} = length (filter (\<lambda>i. Q (int i)) [0..<n])"
proof -
  have "{p. 0 \<le> p \<and> p < int n \<and> Q p} = int ` {i. i < n \<and> Q (int i)}"
  proof (intro equalityI subsetI)
    fix p assume "p \<in> {p. 0 \<le> p \<and> p < int n \<and> Q p}"
    then have "nat p < n \<and> Q (int (nat p))" and "p = int (nat p)" by auto
    then show "p \<in> int ` {i. i < n \<and> Q (int i)}" by blast
  qed auto
  then have "card {p. 0 \<le> p \<and> p < int n \<and> Q p} = card {i. i < n \<and> Q (int i)}"
    by (simp add: card_image)
  also have "{i. i < n \<and> Q (int i)} = {i. i < length [0..<n] \<and> Q (int ([0..<n] ! i))}"
    by auto
  also have "card \<dots> = length (filter (\<lambda>i. Q (int i)) [0..<n])"
    by (simp only: length_filter_conv_card)
  finally show ?thesis .
qed

lemma Init_buckets:
  assumes "Init rnd A dims D N = Inr t"
  shows "\<exists>mx. max_loop N [0..<length N] 0 = Inr mx \<and>
           length (num_people_per_discrete_choice t) = nat mx \<and>
           (\<forall>i<length D. \<exists>k. get_discrete_choice_index t (int i) = Inr k \<and> 0 \<le> k \<and> k < mx) \<and>
           (\<forall>k<nat mx. num_people_per_discrete_choice t ! k =
               int (length (filter (\<lambda>i. get_discrete_choice_index t (int i) = Inr (int k))
                      [0..<length D]))) \<and>
           sum_list (num_people_per_discrete_choice t) = int (length D)"
proof -
  from Init_Inr[OF assms] obtain ds c mx where
    mx: "max_loop N [0..<length N] 0 = Inr mx" and
    cl: "count_loop [0..<length D]
             \<lparr>attribute_table = A, attribute_dimensions = dims, decisions_table = ds,
              num_alternatives_table = N, cumulative_num_discrete_choices = c,
              shuffled_indices_for_person = random_shuffle rnd (map int [0..<length D]),
              num_people_per_discrete_choice = replicate (nat mx) 0\<rparr> = Inr t"
      (is "count_loop _ ?obj = _")
    by blast
  from count_loop_spec[OF cl] obtain b' where
    t: "t = ?obj\<lparr>num_people_per_discrete_choice := b'\<rparr>" and
    len: "length b' = nat mx" and
    idx: "\<forall>i\<in>set [0..<length D]. \<exists>k. get_discrete_choice_index ?obj (int i) = Inr k \<and>
             0 \<le> k \<and> nat k < nat mx" and
    cnt: "\<forall>k<length b'. b' ! k = replicate (nat mx) 0 ! k +
             int (length (filter (\<lambda>i. get_discrete_choice_index ?obj (int i) = Inr (int k))
                    [0..<length D]))" and
    sum: "sum_list b' = sum_list (replicate (nat mx) (0::int)) + int (length [0..<length D])"
    by auto
  have g: "get_discrete_choice_index t i = get_discrete_choice_index ?obj i" for i
    by (simp add: t get_discrete_choice_index_def)
  have b: "num_people_per_discrete_choice t = b'" by (simp add: t)
  have "\<forall>i<length D. \<exists>k. get_discrete_choice_index t (int i) = Inr k \<and> 0 \<le> k \<and> k < mx"
  proof (intro allI impI)
    fix i assume "i < length D"
    with idx have "\<exists>k. get_discrete_choice_index ?obj (int i) = Inr k \<and> 0 \<le> k \<and>
        nat k < nat mx" by simp
    then obtain k where "get_discrete_choice_index ?obj (int i) = Inr k" "0 \<le> k" "nat k < nat mx"
      by blast
    then show "\<exists>k. get_discrete_choice_index t (int i) = Inr k \<and> 0 \<le> k \<and> k < mx"
      by (auto simp: g)
  qed
  moreover have "\<forall>k<nat mx. num_people_per_discrete_choice t ! k =
               int (length (filter (\<lambda>i. get_discrete_choice_index t (int i) = Inr (int k))
                      [0..<length D]))"
    using cnt len by (simp add: b g)
  moreover have "sum_list (num_people_per_discrete_choice t) = int (length D)"
    using sum by (simp add: b sum_list_replicate)
  ultimately show ?thesis using mx len b by blast
qed

text \<open>
  Claim C7. After a successful \<open>Init\<close> on tables that have one number of alternatives
  per person, \<open>num_people_per_discrete_choice_\<close> has as many buckets as the largest
  number of alternatives of a person, bucket \<open>k\<close> holds the number of people whose stored
  (zero-based) choice is \<open>k\<close>, and the buckets add up to the number of people. That the
  decisions are in range need not be assumed: \<open>Init\<close> succeeds only if every stored
  choice falls into a bucket.
\<close>

theorem Init_num_people_per_discrete_choice:
  assumes "Init rnd A dims D N = Inr t" and "n_entries N = n_entries D"
  shows "int (length (num_people_per_discrete_choice t)) =
           Max {n. \<exists>p. 0 \<le> p \<and> p < num_people t \<and> num_discrete_choices t p = Inr n} \<and>
         (\<forall>k. 0 \<le> k \<and> k < int (length (num_people_per_discrete_choice t)) \<longrightarrow>
            num_people_per_discrete_choice_at t k =
              Inr (int (card {p. 0 \<le> p \<and> p < num_people t \<and>
                                get_discrete_choice_index t p = Inr k}))) \<and>
         sum_list (num_people_per_discrete_choice t) = num_people t"
proof -
  let ?S = "{n. \<exists>p. 0 \<le> p \<and> p < num_people t \<and> num_discrete_choices t p = Inr n}"
  note f = Init_fields[OF assms(1)]
  note cs = cumulative_offsets_spec[OF f(5)]
  have np: "num_people t = int (length D)" using cs by (simp add: num_people_def)
  have nN: "n_entries N = int (length D)" using assms(2) by (simp add: n_entries_def)
  have ndc: "num_discrete_choices t p = entry_as_int N p" for p
    by (simp add: num_discrete_choices_def f(4))
  from Init_buckets[OF assms(1)] obtain mx where
    mx: "max_loop N [0..<length N] 0 = Inr mx" and
    len: "length (num_people_per_discrete_choice t) = nat mx" and
    idx: "\<forall>i<length D. \<exists>k. get_discrete_choice_index t (int i) = Inr k \<and> 0 \<le> k \<and> k < mx" and
    cnt: "\<forall>k<nat mx. num_people_per_discrete_choice t ! k =
               int (length (filter (\<lambda>i. get_discrete_choice_index t (int i) = Inr (int k))
                      [0..<length D]))" and
    sum: "sum_list (num_people_per_discrete_choice t) = int (length D)"
    by blast
  note m = max_loop_all[OF mx]
  have "0 < length D" using cs by simp
  with idx obtain k0 where "0 \<le> k0" "k0 < mx" by blast
  then have pos: "0 < mx" by simp
  have lenmx: "int (length (num_people_per_discrete_choice t)) = mx" using len pos by simp
  have "Max ?S = mx"
  proof (rule Max_eqI)
    show "finite ?S" by (rule finite_results)
    show "k \<le> mx" if "k \<in> ?S" for k using that m(2) by (auto simp: ndc np nN)
    show "mx \<in> ?S" using m(3) pos by (auto simp: ndc np nN)
  qed
  then have buckets: "int (length (num_people_per_discrete_choice t)) = Max ?S"
    using lenmx by simp
  have count: "num_people_per_discrete_choice_at t k =
              Inr (int (card {p. 0 \<le> p \<and> p < num_people t \<and>
                                get_discrete_choice_index t p = Inr k}))"
    if "0 \<le> k \<and> k < int (length (num_people_per_discrete_choice t))" for k
  proof -
    from that lenmx have k: "nat k < nat mx" "int (nat k) = k" by auto
    have "num_people_per_discrete_choice_at t k = Inr (num_people_per_discrete_choice t ! nat k)"
      using that by (simp add: num_people_per_discrete_choice_at_def nat_less_iff)
    also have "num_people_per_discrete_choice t ! nat k =
        int (length (filter (\<lambda>i. get_discrete_choice_index t (int i) = Inr k) [0..<length D]))"
      using cnt k by auto
    also have "length (filter (\<lambda>i. get_discrete_choice_index t (int i) = Inr k) [0..<length D]) =
        card {p. 0 \<le> p \<and> p < int (length D) \<and> get_discrete_choice_index t p = Inr k}"
      by (rule card_int_range[symmetric])
    finally show ?thesis by (simp add: np)
  qed
  show ?thesis using buckets count sum np by simp
qed

theorem Init_num_people_per_discrete_choice_witness:
  "Init example_rnd example_attributes [2] example_decisions example_alternatives =
     Inr example_table \<and>
   n_entries example_alternatives = n_entries example_decisions \<and>
   int (length (num_people_per_discrete_choice example_table)) = 3 \<and>
   Max {n. \<exists>p. 0 \<le> p \<and> p < num_people example_table \<and>
                num_discrete_choices example_table p = Inr n} = 3 \<and>
   num_people_per_discrete_choice_at example_table 2 = Inr 1 \<and>
   card {p. 0 \<le> p \<and> p < num_people example_table \<and>
            get_discrete_choice_index example_table p = Inr 2} = 1 \<and>
   sum_list (num_people_per_discrete_choice example_table) = num_people example_table"
proof -
  have n: "n_entries example_alternatives = n_entries example_decisions"
    by (simp add: n_entries_def example_alternatives_def example_decisions_def)
  have b: "num_people_per_discrete_choice example_table = [1, 0, 1]"
    by (simp add: example_table_def)
  have a: "num_people_per_discrete_choice_at example_table 2 = Inr 1"
    by (simp add: num_people_per_discrete_choice_at_def b)
  note w = Init_num_people_per_discrete_choice[OF example_Init n]
  from w have "num_people_per_discrete_choice_at example_table 2 =
              Inr (int (card {p. 0 \<le> p \<and> p < num_people example_table \<and>
                                get_discrete_choice_index example_table p = Inr 2}))"
    by (simp add: b)
  with a have "card {p. 0 \<le> p \<and> p < num_people example_table \<and>
            get_discrete_choice_index example_table p = Inr 2} = 1" by simp
  moreover from w[THEN conjunct1] have "Max {n. \<exists>p. 0 \<le> p \<and> p < num_people example_table \<and>
                num_discrete_choices example_table p = Inr n} = 3" by (simp add: b)
  moreover from w have "sum_list (num_people_per_discrete_choice example_table) =
     num_people example_table" by simp
  ultimately show ?thesis using example_Init n a b by simp
qed

subsection \<open>The check of \<open>Init\<close>\<close>

lemma entry_as_int_Inl: "entry_as_int t i = Inl e \<Longrightarrow> e = Undefined_Behaviour"
  by (auto simp: entry_as_int_def data_at_0_def get_def vec_at_def static_cast_int_def Let_def
        and_then_Inl_iff split: if_splits)

lemma max_loop_Inl: "max_loop alts is m = Inl e \<Longrightarrow> e = Undefined_Behaviour"
proof (induction "is" arbitrary: m)
  case Nil
  then show ?case by simp
next
  case (Cons i "is")
  then show ?case
    by (auto simp: max_loop_step and_then_Inl_iff simp del: max_loop.simps
          dest: entry_as_int_Inl)
qed

lemma count_loop_Inl: "count_loop is this = Inl e \<Longrightarrow> e = Undefined_Behaviour"
proof (induction "is" arbitrary: this)
  case Nil
  then show ?case by simp
next
  case (Cons i "is")
  then show ?case
    by (auto simp: and_then_Inl_iff get_discrete_choice_index_def
          dest: entry_as_int_Inl split: if_splits)
qed

lemma count_loop_succeeds:
  assumes "\<forall>i\<in>set is. \<exists>k. get_discrete_choice_index this (int i) = Inr k \<and> 0 \<le> k \<and>
             nat k < length (num_people_per_discrete_choice this)"
  shows "\<exists>t. count_loop is this = Inr t"
  using assms
proof (induction "is" arbitrary: this)
  case Nil
  then show ?case by simp
next
  case (Cons i "is")
  let ?b = "num_people_per_discrete_choice this"
  from Cons.prems obtain k where k: "get_discrete_choice_index this (int i) = Inr k"
    "0 \<le> k" "nat k < length ?b" by auto
  let ?next = "this\<lparr>num_people_per_discrete_choice := ?b[nat k := ?b ! nat k + 1]\<rparr>"
  have "\<forall>j\<in>set is. \<exists>k. get_discrete_choice_index ?next (int j) = Inr k \<and> 0 \<le> k \<and>
             nat k < length (num_people_per_discrete_choice ?next)"
    using Cons.prems by (simp add: get_discrete_choice_index_buckets)
  from Cons.IH[OF this] obtain t where "count_loop is ?next = Inr t" by blast
  then show ?case using k by simp
qed

lemma count_loop_Inr_iff:
  "(\<exists>t. count_loop is this = Inr t) \<longleftrightarrow>
   (\<forall>i\<in>set is. \<exists>k. get_discrete_choice_index this (int i) = Inr k \<and> 0 \<le> k \<and>
             nat k < length (num_people_per_discrete_choice this))"
proof
  assume "\<exists>t. count_loop is this = Inr t"
  then obtain t where "count_loop is this = Inr t" by blast
  from count_loop_spec[OF this] show "\<forall>i\<in>set is. \<exists>k. get_discrete_choice_index this (int i) = Inr k \<and> 0 \<le> k \<and>
             nat k < length (num_people_per_discrete_choice this)" by blast
qed (rule count_loop_succeeds)

lemma Init_after_check:
  assumes "subtract_ones [0..<length D] D = Inr ds"
    and "cumulative_offsets N (length D) = Inr c"
    and "last_total N c = Inr s"
  shows "Init rnd A dims D N =
     (if s \<noteq> n_entries A then Inl (Exit 0 mismatch_message)
      else and_then (max_loop N [0..<length N] 0) (\<lambda>mx.
        count_loop [0..<length D]
          \<lparr>attribute_table = A, attribute_dimensions = dims, decisions_table = ds,
           num_alternatives_table = N, cumulative_num_discrete_choices = c,
           shuffled_indices_for_person = random_shuffle rnd (map int [0..<length D]),
           num_people_per_discrete_choice = replicate (nat mx) 0\<rparr>))"
proof -
  have "length ds = length D" using subtract_ones_all[OF assms(1)] by simp
  then show ?thesis
    using assms by (simp add: Init_def Let_def length_random_shuffle)
qed

lemma Init_completes_iff:
  assumes "subtract_ones [0..<length D] D = Inr ds"
    and "cumulative_offsets N (length D) = Inr c"
    and "last_total N c = Inr s"
  shows "(s \<noteq> n_entries A \<longrightarrow> Init rnd A dims D N = Inl (Exit 0 mismatch_message)) \<and>
         (s = n_entries A \<longrightarrow>
            (\<forall>status message. Init rnd A dims D N \<noteq> Inl (Exit status message)) \<and>
            ((\<exists>t. Init rnd A dims D N = Inr t) \<longleftrightarrow>
             (\<exists>mx. max_loop N [0..<length N] 0 = Inr mx \<and>
                (\<forall>p. 0 \<le> p \<and> p < n_entries D \<longrightarrow>
                   (\<exists>k. entry_as_int ds p = Inr k \<and> 0 \<le> k \<and> k < mx)))))"
proof (intro conjI impI)
  note eq = Init_after_check[OF assms, of rnd A dims]
  show "Init rnd A dims D N = Inl (Exit 0 mismatch_message)" if "s \<noteq> n_entries A"
    using that eq by simp
  assume s: "s = n_entries A"
  let ?obj = "\<lambda>mx. \<lparr>attribute_table = A, attribute_dimensions = dims, decisions_table = ds,
           num_alternatives_table = N, cumulative_num_discrete_choices = c,
           shuffled_indices_for_person = random_shuffle rnd (map int [0..<length D]),
           num_people_per_discrete_choice = replicate (nat mx) 0\<rparr>"
  have eq': "Init rnd A dims D N =
      and_then (max_loop N [0..<length N] 0) (\<lambda>mx. count_loop [0..<length D] (?obj mx))"
    using eq s by simp
  show "\<forall>status message. Init rnd A dims D N \<noteq> Inl (Exit status message)"
  proof (intro allI notI)
    fix status message assume "Init rnd A dims D N = Inl (Exit status message)"
    then have "max_loop N [0..<length N] 0 = Inl (Exit status message) \<or>
      (\<exists>mx. count_loop [0..<length D] (?obj mx) = Inl (Exit status message))"
      by (auto simp: eq' and_then_Inl_iff)
    then show False using max_loop_Inl count_loop_Inl by blast
  qed
  have cond: "(\<exists>t. count_loop [0..<length D] (?obj mx) = Inr t) \<longleftrightarrow>
      (\<forall>p. 0 \<le> p \<and> p < n_entries D \<longrightarrow> (\<exists>k. entry_as_int ds p = Inr k \<and> 0 \<le> k \<and> k < mx))"
    (is "?L \<longleftrightarrow> ?R") for mx
  proof
    assume ?L
    then have a: "\<forall>i\<in>set [0..<length D]. \<exists>k. entry_as_int ds (int i) = Inr k \<and> 0 \<le> k \<and>
             nat k < nat mx"
      by (simp add: count_loop_Inr_iff get_discrete_choice_index_def)
    show ?R
    proof (intro allI impI)
      fix p assume "0 \<le> p \<and> p < n_entries D"
      then have "nat p \<in> set [0..<length D]" "int (nat p) = p" by (auto simp: n_entries_def)
      with a obtain k where "entry_as_int ds p = Inr k" "0 \<le> k" "nat k < nat mx" by metis
      then show "\<exists>k. entry_as_int ds p = Inr k \<and> 0 \<le> k \<and> k < mx" by auto
    qed
  next
    assume r: ?R
    have "\<forall>i\<in>set [0..<length D]. \<exists>k. entry_as_int ds (int i) = Inr k \<and> 0 \<le> k \<and>
             nat k < nat mx"
    proof
      fix i assume "i \<in> set [0..<length D]"
      then have "0 \<le> int i \<and> int i < n_entries D" by (simp add: n_entries_def)
      with r obtain k where "entry_as_int ds (int i) = Inr k" "0 \<le> k" "k < mx" by blast
      then show "\<exists>k. entry_as_int ds (int i) = Inr k \<and> 0 \<le> k \<and> nat k < nat mx" by auto
    qed
    then show ?L by (simp add: count_loop_Inr_iff get_discrete_choice_index_def)
  qed
  have "(\<exists>t. Init rnd A dims D N = Inr t) \<longleftrightarrow>
        (\<exists>mx. max_loop N [0..<length N] 0 = Inr mx \<and>
           (\<exists>t. count_loop [0..<length D] (?obj mx) = Inr t))"
    by (auto simp: eq' and_then_Inr_iff)
  then show "(\<exists>t. Init rnd A dims D N = Inr t) \<longleftrightarrow>
             (\<exists>mx. max_loop N [0..<length N] 0 = Inr mx \<and>
                (\<forall>p. 0 \<le> p \<and> p < n_entries D \<longrightarrow>
                   (\<exists>k. entry_as_int ds p = Inr k \<and> 0 \<le> k \<and> k < mx)))"
    by (simp only: cond)
qed



lemma max_loop_succeeds:
  assumes "\<forall>i\<in>set is. \<exists>k. entry_as_int alts (int i) = Inr k"
  shows "\<exists>m. max_loop alts is m0 = Inr m"
  using assms
proof (induction "is" arbitrary: m0)
  case Nil
  then show ?case by simp
next
  case (Cons i "is")
  from Cons.prems obtain k where k: "entry_as_int alts (int i) = Inr k" by auto
  from Cons.prems have "\<forall>j\<in>set is. \<exists>k. entry_as_int alts (int j) = Inr k" by simp
  from Cons.IH[OF this, of "max m0 k"] obtain m where "max_loop alts is (max m0 k) = Inr m"
    by blast
  then show ?case using k by (simp add: max_loop_step del: max_loop.simps)
qed

text \<open>
  Claim C4. Suppose \<open>Init\<close> reaches its check: the decisions were decremented, the
  cumulative counts \<open>c\<close> were computed, and the last cumulative count plus the last
  person's number of alternatives is \<open>s\<close>. If \<open>s\<close> differs from the number of entries
  of the attribute table, \<open>Init\<close> writes the message and calls \<open>exit(0)\<close>, and no
  table results. If they are equal, \<open>Init\<close> does not exit, and on valid input (one number
  of alternatives per person, every decision between 1 and the person's number of
  alternatives) it completes with a table.
\<close>

theorem Init_validation:
  assumes "subtract_ones [0..<length D] D = Inr ds"
    and "cumulative_offsets N (length D) = Inr c"
    and "last_total N c = Inr s"
  shows "(s \<noteq> n_entries A \<longrightarrow> Init rnd A dims D N = Inl (Exit 0 mismatch_message)) \<and>
         (s = n_entries A \<longrightarrow>
            (\<forall>status message. Init rnd A dims D N \<noteq> Inl (Exit status message)) \<and>
            (n_entries N = n_entries D \<and>
             (\<forall>p. 0 \<le> p \<and> p < n_entries D \<longrightarrow>
                (\<exists>d n. entry_as_int D p = Inr d \<and> entry_as_int N p = Inr n \<and>
                       1 \<le> d \<and> d \<le> n)) \<longrightarrow>
             (\<exists>t. Init rnd A dims D N = Inr t)))"
proof (intro conjI impI)
  note iff = Init_completes_iff[OF assms, of A rnd dims]
  show "Init rnd A dims D N = Inl (Exit 0 mismatch_message)" if "s \<noteq> n_entries A"
    using that iff by simp
  assume s: "s = n_entries A"
  show "\<forall>status message. Init rnd A dims D N \<noteq> Inl (Exit status message)"
    using s iff by simp
  assume valid: "n_entries N = n_entries D \<and>
             (\<forall>p. 0 \<le> p \<and> p < n_entries D \<longrightarrow>
                (\<exists>d n. entry_as_int D p = Inr d \<and> entry_as_int N p = Inr n \<and>
                       1 \<le> d \<and> d \<le> n))"
  have ds: "ds = map (\<lambda>point. point[0 := point ! 0 - 1]) D"
    using subtract_ones_all[OF assms(1)] by simp
  have "\<forall>i\<in>set [0..<length N]. \<exists>k. entry_as_int N (int i) = Inr k"
  proof
    fix i assume "i \<in> set [0..<length N]"
    with valid have "0 \<le> int i \<and> int i < n_entries D" by (simp add: n_entries_def)
    with valid show "\<exists>k. entry_as_int N (int i) = Inr k" by blast
  qed
  from max_loop_succeeds[OF this] obtain mx where
    mx: "max_loop N [0..<length N] 0 = Inr mx" by blast
  have "\<exists>k. entry_as_int ds p = Inr k \<and> 0 \<le> k \<and> k < mx"
    if p: "0 \<le> p \<and> p < n_entries D" for p
  proof -
    from valid p obtain d n where d: "entry_as_int D p = Inr d"
      and n: "entry_as_int N p = Inr n" and r: "1 \<le> d" "d \<le> n" by blast
    from d obtain x where x: "data_at_0 D p = Inr x" and cast: "static_cast_int x = Inr d"
      by (auto simp: entry_as_int_def and_then_Inr_iff)
    have "entry_as_int ds p = Inr (d - 1)"
      using data_at_0_decrement[OF x] static_cast_int_pred[OF cast r(1)]
      by (simp add: entry_as_int_def ds)
    moreover have "n \<le> mx"
      using max_loop_all(2)[OF mx _ _ n] p valid by simp
    ultimately show ?thesis using r by auto
  qed
  with mx have "\<exists>mx. max_loop N [0..<length N] 0 = Inr mx \<and>
                (\<forall>p. 0 \<le> p \<and> p < n_entries D \<longrightarrow>
                   (\<exists>k. entry_as_int ds p = Inr k \<and> 0 \<le> k \<and> k < mx))" by blast
  then show "\<exists>t. Init rnd A dims D N = Inr t" using s iff by simp
qed

text \<open>
  The example with the alternatives \<open>[2, 4]\<close> (6 expected entries, 5 present) exits; the
  example itself passes the check and completes.
\<close>

theorem Init_validation_witness:
  "Init example_rnd example_attributes [2] example_decisions [[2], [4]] =
     Inl (Exit 0 mismatch_message) \<and>
   (\<exists>t. Init example_rnd example_attributes [2] example_decisions example_alternatives = Inr t)"
proof -
  have d: "subtract_ones [0..<length example_decisions] example_decisions = Inr [[0], [2]]"
    unfolding example_decisions_def by code_simp
  have c1: "cumulative_offsets [[2], [4]] (length example_decisions) = Inr [0, 2]"
    unfolding example_decisions_def by code_simp
  have s1: "last_total [[2], [4]] [0, 2] = Inr 6"
    by code_simp
  have c2: "cumulative_offsets example_alternatives (length example_decisions) = Inr [0, 2]"
    unfolding example_decisions_def example_alternatives_def by code_simp
  have s2: "last_total example_alternatives [0, 2] = Inr 5"
    unfolding example_alternatives_def by code_simp
  have n: "n_entries example_attributes = 5"
    by (simp add: n_entries_def example_attributes_def)
  have m: "n_entries example_alternatives = n_entries example_decisions"
    by (simp add: n_entries_def example_alternatives_def example_decisions_def)
  have e0: "entry_as_int example_decisions 0 = Inr 1 \<and> entry_as_int example_alternatives 0 = Inr 2"
    and e1: "entry_as_int example_decisions 1 = Inr 3 \<and> entry_as_int example_alternatives 1 = Inr 3"
    unfolding example_decisions_def example_alternatives_def by code_simp+
  have r: "\<forall>p. 0 \<le> p \<and> p < n_entries example_decisions \<longrightarrow>
             (\<exists>d n. entry_as_int example_decisions p = Inr d \<and>
                    entry_as_int example_alternatives p = Inr n \<and> 1 \<le> d \<and> d \<le> n)"
  proof (intro allI impI)
    fix p :: int assume "0 \<le> p \<and> p < n_entries example_decisions"
    then have "p = 0 \<or> p = 1" by (auto simp: n_entries_def example_decisions_def)
    then show "\<exists>d n. entry_as_int example_decisions p = Inr d \<and>
                    entry_as_int example_alternatives p = Inr n \<and> 1 \<le> d \<and> d \<le> n"
      using e0 e1 by auto
  qed
  from Init_validation[OF d c1 s1, of example_attributes example_rnd "[2]"] n
  have "Init example_rnd example_attributes [2] example_decisions [[2], [4]] =
     Inl (Exit 0 mismatch_message)" by simp
  moreover from Init_validation[OF d c2 s2, of example_attributes example_rnd "[2]"] n m r
  have "\<exists>t. Init example_rnd example_attributes [2] example_decisions example_alternatives = Inr t"
    by simp
  ultimately show ?thesis by simp
qed

subsection \<open>Doubles\<close>

lemma DBL_MAX_large: "10000000000 \<le> DBL_MAX"
  by (simp add: DBL_MAX_def)

lemma overflow_threshold_above: "DBL_MAX < overflow_threshold"
  by (simp add: DBL_MAX_def overflow_threshold_def)

lemma fl_Finite: "- DBL_MAX \<le> r \<Longrightarrow> r \<le> DBL_MAX \<Longrightarrow> fl r = Finite r"
  using overflow_threshold_above by (simp add: fl_def)




subsection \<open>The loops of \<open>choice_probabilities\<close>\<close>



lemma exp_loop_spec:
  assumes "distinct is" and "\<forall>i\<in>set is. i < length cp"
  shows "\<exists>cp'. exp_loop m is (cp, z) =
           (cp', foldl double_add z
                   (map (\<lambda>i. double_exp (adjusted_dot_product (cp ! i) m)) is)) \<and>
           length cp' = length cp \<and>
           (\<forall>q<length cp. cp' ! q =
              (if q \<in> set is then double_exp (adjusted_dot_product (cp ! q) m) else cp ! q))"
  using assms
proof (induction "is" arbitrary: cp z)
  case Nil
  then show ?case by simp
next
  case (Cons i "is")
  let ?W = "\<lambda>s. double_exp (adjusted_dot_product s m)"
  let ?w = "?W (cp ! i)"
  let ?cp1 = "cp[i := ?w]"
  from Cons.prems have ni: "i \<notin> set is" and dis: "distinct is" and i: "i < length cp"
    and bound: "\<forall>j\<in>set is. j < length ?cp1" by simp_all
  from Cons.IH[OF dis bound, of "double_add z ?w"] obtain cp' where
    r: "exp_loop m is (?cp1, double_add z ?w) =
           (cp', foldl double_add (double_add z ?w) (map (\<lambda>j. ?W (?cp1 ! j)) is))" and
    len: "length cp' = length ?cp1" and
    vals: "\<forall>q<length ?cp1. cp' ! q = (if q \<in> set is then ?W (?cp1 ! q) else ?cp1 ! q)"
    by blast
  have other: "?cp1 ! j = cp ! j" if "j \<in> set is" for j
    using that ni by (cases "j = i") simp_all
  have same: "map (\<lambda>j. ?W (?cp1 ! j)) is = map (\<lambda>j. ?W (cp ! j)) is"
    by (rule map_cong) (simp_all add: other)
  have "exp_loop m (i # is) (cp, z) =
          (cp', foldl double_add z (map (\<lambda>j. ?W (cp ! j)) (i # is)))"
    using r same by (simp add: Let_def)
  moreover have "\<forall>q<length cp. cp' ! q =
      (if q \<in> set (i # is) then ?W (cp ! q) else cp ! q)"
  proof (intro allI impI)
    fix q assume q: "q < length cp"
    show "cp' ! q = (if q \<in> set (i # is) then ?W (cp ! q) else cp ! q)"
    proof (cases "q = i")
      case True
      then show ?thesis using vals ni i by simp
    next
      case False
      then show ?thesis using vals q by simp
    qed
  qed
  ultimately show ?case using len by simp
qed

lemma exp_loop_all:
  "exp_loop m [0..<length cp] (cp, z) =
     (map (\<lambda>s. double_exp (adjusted_dot_product s m)) cp,
      foldl double_add z (map (\<lambda>s. double_exp (adjusted_dot_product s m)) cp))"
proof -
  let ?W = "\<lambda>s. double_exp (adjusted_dot_product s m)"
  from exp_loop_spec[of "[0..<length cp]" cp m z] obtain cp' where
    r: "exp_loop m [0..<length cp] (cp, z) =
           (cp', foldl double_add z (map (\<lambda>i. ?W (cp ! i)) [0..<length cp]))" and
    len: "length cp' = length cp" and
    vals: "\<forall>q<length cp. cp' ! q =
             (if q \<in> set [0..<length cp] then ?W (cp ! q) else cp ! q)"
    by auto
  have "cp' = map ?W cp"
    using len vals by (intro nth_equalityI) simp_all
  moreover have "map (\<lambda>i. ?W (cp ! i)) [0..<length cp] = map ?W (map (\<lambda>i. cp ! i) [0..<length cp])"
    by simp
  then have "map (\<lambda>i. ?W (cp ! i)) [0..<length cp] = map ?W cp"
    by (simp only: map_nth)
  ultimately show ?thesis using r by simp
qed

lemma normalize_loop_spec:
  assumes "distinct is" and "\<forall>i\<in>set is. i < length cp"
  shows "length (normalize_loop z is cp) = length cp \<and>
         (\<forall>q<length cp. normalize_loop z is cp ! q =
            (if q \<in> set is then double_div (cp ! q) z else cp ! q))"
  using assms
proof (induction "is" arbitrary: cp)
  case Nil
  then show ?case by simp
next
  case (Cons i "is")
  let ?cp1 = "cp[i := double_div (cp ! i) z]"
  from Cons.prems have ni: "i \<notin> set is" and dis: "distinct is" and i: "i < length cp"
    and bound: "\<forall>j\<in>set is. j < length ?cp1" by simp_all
  note IH = Cons.IH[OF dis bound]
  have "\<forall>q<length cp. normalize_loop z (i # is) cp ! q =
            (if q \<in> set (i # is) then double_div (cp ! q) z else cp ! q)"
  proof (intro allI impI)
    fix q assume q: "q < length cp"
    show "normalize_loop z (i # is) cp ! q =
            (if q \<in> set (i # is) then double_div (cp ! q) z else cp ! q)"
    proof (cases "q = i")
      case True
      then show ?thesis using IH ni i by simp
    next
      case False
      then show ?thesis using IH q by simp
    qed
  qed
  then show ?case using IH by simp
qed

lemma normalize_loop_all:
  "normalize_loop z [0..<length cp] cp = map (\<lambda>w. double_div w z) cp"
  using normalize_loop_spec[of "[0..<length cp]" cp z]
  by (intro nth_equalityI) simp_all

lemma unnormalized_probabilities_eq:
  assumes "dot_products this p beta = Inr (scores, m)"
  shows "unnormalized_probabilities this p beta =
           Inr (map (\<lambda>s. double_exp (adjusted_dot_product s m)) scores,
                foldl double_add (Finite 0)
                  (map (\<lambda>s. double_exp (adjusted_dot_product s m)) scores))"
  by (simp add: unnormalized_probabilities_def assms exp_loop_all)

lemma choice_probabilities_eq:
  assumes "dot_products this p beta = Inr (scores, m)"
  shows "choice_probabilities this p beta =
           Inr (map (\<lambda>s. double_div (double_exp (adjusted_dot_product s m))
                           (foldl double_add (Finite 0)
                              (map (\<lambda>s. double_exp (adjusted_dot_product s m)) scores)))
                  scores)"
proof -
  let ?ws = "map (\<lambda>s. double_exp (adjusted_dot_product s m)) scores"
  let ?z = "foldl double_add (Finite 0) ?ws"
  have "choice_probabilities this p beta = Inr (normalize_loop ?z [0..<length ?ws] ?ws)"
    by (simp add: choice_probabilities_def unnormalized_probabilities_eq[OF assms])
  also have "normalize_loop ?z [0..<length ?ws] ?ws = map (\<lambda>w. double_div w ?z) ?ws"
    by (rule normalize_loop_all)
  finally show ?thesis by (simp add: o_def)
qed

subsection \<open>Finite scores\<close>





text \<open>
  The weight of a finite score \<open>s\<close> under a finite maximum \<open>M\<close>: the subtraction can
  overflow to minus infinity, whose exponential is 0.
\<close>

lemma weight_Finite:
  assumes "s \<le> M" and "\<bar>s\<bar> \<le> DBL_MAX" and "\<bar>M\<bar> \<le> DBL_MAX"
  shows "double_exp (adjusted_dot_product (Finite s) (Finite M)) =
           Finite (if s - M \<le> - overflow_threshold then 0
                   else exp (max (s - M) (- DBL_MAX) + 1))"
    and "double_le (adjusted_dot_product (Finite s) (Finite M)) (Finite 1)"
proof -
  note big = DBL_MAX_large
  note thr = overflow_threshold_above
  have e3: "exp (x::real) \<le> 3" if "x \<le> 1" for x
  proof -
    from that have "exp x \<le> exp (1::real)" by simp
    also have "\<dots> \<le> 3" by (rule exp_le)
    finally show ?thesis .
  qed
  have flexp: "fl (exp x) = Finite (exp x)" if "x \<le> 1" for x :: real
  proof (rule fl_Finite)
    have "0 < exp x" by simp
    then show "- DBL_MAX \<le> exp x" using big by linarith
    show "exp x \<le> DBL_MAX" using e3[OF that] big by linarith
  qed
  consider (minus) "s - M \<le> - overflow_threshold"
    | (clamp) "- overflow_threshold < s - M" "s - M < - DBL_MAX"
    | (exact) "- DBL_MAX \<le> s - M"
    by linarith
  then have "double_exp (adjusted_dot_product (Finite s) (Finite M)) =
           Finite (if s - M \<le> - overflow_threshold then 0
                   else exp (max (s - M) (- DBL_MAX) + 1)) \<and>
         double_le (adjusted_dot_product (Finite s) (Finite M)) (Finite 1)"
  proof cases
    case minus
    have "\<not> overflow_threshold \<le> s - M" using assms(1) thr big by linarith
    with minus have "fl (s - M) = MinusInf" by (simp add: fl_def)
    then show ?thesis using minus by (simp add: adjusted_dot_product_def)
  next
    case clamp
    have "\<not> overflow_threshold \<le> s - M" using assms(1) thr big by linarith
    moreover have "\<not> DBL_MAX < s - M" using assms(1) big by linarith
    ultimately have "fl (s - M) = Finite (- DBL_MAX)" using clamp by (simp add: fl_def)
    moreover have "fl (- DBL_MAX + 1) = Finite (- DBL_MAX + 1)"
      using big by (intro fl_Finite) linarith+
    moreover have "- DBL_MAX + 1 \<le> 1" using big by linarith
    moreover have "max (s - M) (- DBL_MAX) = - DBL_MAX" using clamp by simp
    ultimately show ?thesis using clamp flexp[of "- DBL_MAX + 1"]
      by (simp add: adjusted_dot_product_def)
  next
    case exact
    have up: "s - M \<le> 0" using assms(1) by simp
    have "fl (s - M) = Finite (s - M)" using exact up big by (intro fl_Finite) linarith+
    moreover have "fl (s - M + 1) = Finite (s - M + 1)"
      using exact up big by (intro fl_Finite) linarith+
    moreover have "\<not> s - M \<le> - overflow_threshold" using exact thr by linarith
    moreover have "max (s - M) (- DBL_MAX) = s - M" using exact by simp
    ultimately show ?thesis using up flexp[of "s - M + 1"]
      by (simp add: adjusted_dot_product_def)
  qed
  then show "double_exp (adjusted_dot_product (Finite s) (Finite M)) =
           Finite (if s - M \<le> - overflow_threshold then 0
                   else exp (max (s - M) (- DBL_MAX) + 1))"
    and "double_le (adjusted_dot_product (Finite s) (Finite M)) (Finite 1)"
    by simp_all
qed

lemma sum_Finite:
  assumes "\<forall>w\<in>set ws. 0 \<le> w \<and> w \<le> 3" and "0 \<le> z"
    and "z + 3 * real (length ws) \<le> DBL_MAX"
  shows "foldl double_add (Finite z) (map Finite ws) = Finite (z + sum_list ws)"
  using assms
proof (induction ws arbitrary: z)
  case Nil
  then show ?case by simp
next
  case (Cons w ws)
  from Cons.prems have w: "0 \<le> w" "w \<le> 3" by simp_all
  have "z + w \<le> DBL_MAX" using Cons.prems(3) w by simp
  moreover have "- DBL_MAX \<le> z + w" using Cons.prems(2) w DBL_MAX_large by linarith
  ultimately have step: "fl (z + w) = Finite (z + w)" by (intro fl_Finite)
  have "foldl double_add (Finite (z + w)) (map Finite ws) = Finite (z + w + sum_list ws)"
  proof (rule Cons.IH)
    show "\<forall>w\<in>set ws. 0 \<le> w \<and> w \<le> 3" using Cons.prems(1) by simp
    show "0 \<le> z + w" using Cons.prems(2) w by simp
    show "z + w + 3 * real (length ws) \<le> DBL_MAX" using Cons.prems(3) w by simp
  qed
  then show ?case using step by (simp add: add.assoc)
qed

lemma member_le_sum_list_real:
  fixes ws :: "real list"
  shows "\<forall>w\<in>set ws. 0 \<le> w \<Longrightarrow> x \<in> set ws \<Longrightarrow> x \<le> sum_list ws"
proof (induction ws)
  case Nil
  then show ?case by simp
next
  case (Cons w ws)
  have "0 \<le> sum_list ws" using Cons.prems(1) by (intro sum_list_nonneg) simp
  then show ?case using Cons by auto
qed



lemma choice_probabilities_finite_scores:
  fixes M :: real
  defines "w \<equiv> \<lambda>s. if s - M \<le> - overflow_threshold then 0
                      else exp (max (s - M) (- DBL_MAX) + 1)"
  assumes d: "dot_products this p beta = Inr (map Finite ss, Finite M)"
    and mem: "M \<in> set ss"
    and range: "\<forall>s\<in>set ss. s \<le> M \<and> \<bar>s\<bar> \<le> DBL_MAX"
    and len: "real (length ss) \<le> 2147483647"
  shows "unnormalized_probabilities this p beta =
           Inr (map (\<lambda>s. Finite (w s)) ss, Finite (sum_list (map w ss)))"
    and "choice_probabilities this p beta =
           Inr (map (\<lambda>s. Finite (w s / sum_list (map w ss))) ss)"
    and "\<forall>s\<in>set ss. 0 \<le> w s \<and> w s \<le> sum_list (map w ss)"
    and "0 < sum_list (map w ss)"
proof -
  note big = DBL_MAX_large
  have Mr: "\<bar>M\<bar> \<le> DBL_MAX" using mem range by blast
  have W: "double_exp (adjusted_dot_product (Finite s) (Finite M)) = Finite (w s)"
    if "s \<in> set ss" for s
    using weight_Finite(1)[of s M] that range Mr by (simp add: w_def)
  have weights: "map (\<lambda>s. double_exp (adjusted_dot_product s (Finite M))) (map Finite ss) =
      map Finite (map w ss)"
    by (simp add: W)
  have wb: "0 \<le> w s \<and> w s \<le> 3" if "s \<in> set ss" for s
  proof (cases "s - M \<le> - overflow_threshold")
    case True
    then show ?thesis by (simp add: w_def)
  next
    case False
    from that range have "s - M \<le> 0" by simp
    then have "max (s - M) (- DBL_MAX) + 1 \<le> 1" using big by simp
    then have "exp (max (s - M) (- DBL_MAX) + 1) \<le> exp (1::real)" by simp
    also have "\<dots> \<le> 3" by (rule exp_le)
    finally show ?thesis using False by (simp add: w_def)
  qed
  have wM: "w M = exp 1"
  proof -
    have "\<not> (0::real) \<le> - overflow_threshold" using overflow_threshold_above big by linarith
    moreover have "max 0 (- DBL_MAX) = 0" using big by simp
    ultimately show ?thesis by (simp add: w_def)
  qed
  have bounds: "\<forall>x\<in>set (map w ss). 0 \<le> x \<and> x \<le> 3" using wb by simp
  have "0 + 3 * real (length (map w ss)) \<le> DBL_MAX" using len big by simp
  with bounds have Z: "foldl double_add (Finite 0) (map Finite (map w ss)) =
      Finite (0 + sum_list (map w ss))"
    by (intro sum_Finite) simp_all
  have le_sum: "w s \<le> sum_list (map w ss)" if "s \<in> set ss" for s
    using that bounds by (intro member_le_sum_list_real) auto
  have "exp 1 \<le> sum_list (map w ss)" using le_sum[OF mem] wM by simp
  moreover have "(0::real) < exp 1" by simp
  ultimately show pos: "0 < sum_list (map w ss)" by linarith
  show "\<forall>s\<in>set ss. 0 \<le> w s \<and> w s \<le> sum_list (map w ss)" using wb le_sum by simp
  have "unnormalized_probabilities this p beta =
      Inr (map Finite (map w ss), Finite (0 + sum_list (map w ss)))"
    using unnormalized_probabilities_eq[OF d] by (simp only: weights Z)
  then show "unnormalized_probabilities this p beta =
           Inr (map (\<lambda>s. Finite (w s)) ss, Finite (sum_list (map w ss)))"
    by (simp add: o_def)
  have div: "double_div (Finite (w s)) (Finite (sum_list (map w ss))) =
      Finite (w s / sum_list (map w ss))" if "s \<in> set ss" for s
  proof -
    have "0 \<le> w s / sum_list (map w ss)" using wb[OF that] pos by simp
    moreover have "w s / sum_list (map w ss) \<le> 1" using le_sum[OF that] pos by simp
    ultimately have "fl (w s / sum_list (map w ss)) = Finite (w s / sum_list (map w ss))"
      using big by (intro fl_Finite) linarith+
    then show ?thesis using pos by simp
  qed
  let ?W = "\<lambda>s. double_exp (adjusted_dot_product s (Finite M))"
  have "choice_probabilities this p beta =
      Inr (map (\<lambda>x. double_div x (foldl double_add (Finite 0) (map ?W (map Finite ss))))
             (map ?W (map Finite ss)))"
    using choice_probabilities_eq[OF d] by (simp add: o_def)
  then have "choice_probabilities this p beta =
      Inr (map (\<lambda>x. double_div x (Finite (0 + sum_list (map w ss)))) (map Finite (map w ss)))"
    by (simp only: weights Z)
  also have "map (\<lambda>x. double_div x (Finite (0 + sum_list (map w ss)))) (map Finite (map w ss)) =
      map (\<lambda>s. Finite (w s / sum_list (map w ss))) ss"
    by (simp add: div del: double_div.simps)
  finally show "choice_probabilities this p beta =
           Inr (map (\<lambda>s. Finite (w s / sum_list (map w ss))) ss)" .
qed

subsection \<open>The two examples\<close>

lemmas double_numerals = fl_def DBL_MAX_def overflow_threshold_def std_max_def

lemma example_dot_products:
  "dot_products example_table 1 [1, 0] = Inr ([Finite 1, Finite 0, Finite 2], Finite 2)"
  by (simp add: dot_products_def example_accessors get_attribute_vector_def int_add_def
        dot_def double_numerals eval_nat_numeral)

lemma example_probabilities:
  "unnormalized_probabilities example_table 1 [1, 0] =
     Inr ([Finite 1, Finite (exp (- 1)), Finite (exp 1)], Finite (1 + exp (- 1) + exp 1))"
  "choice_probabilities example_table 1 [1, 0] =
     Inr [Finite (1 / (1 + exp (- 1) + exp 1)),
          Finite (exp (- 1) / (1 + exp (- 1) + exp 1)),
          Finite (exp 1 / (1 + exp (- 1) + exp 1))]"
proof -
  have d: "dot_products example_table 1 [1, 0] = Inr (map Finite [1, 0, 2], Finite 2)"
    using example_dot_products by simp
  have mem: "(2::real) \<in> set [1, 0, 2]" by simp
  have range: "\<forall>s\<in>set [1, 0, 2::real]. s \<le> 2 \<and> \<bar>s\<bar> \<le> DBL_MAX"
    by (simp add: DBL_MAX_def)
  have len: "real (length [1, 0, 2::real]) \<le> 2147483647" by simp
  note r = choice_probabilities_finite_scores[OF d mem range len]
  show "unnormalized_probabilities example_table 1 [1, 0] =
     Inr ([Finite 1, Finite (exp (- 1)), Finite (exp 1)], Finite (1 + exp (- 1) + exp 1))"
    using r(1) by (simp add: DBL_MAX_def overflow_threshold_def)
  show "choice_probabilities example_table 1 [1, 0] =
     Inr [Finite (1 / (1 + exp (- 1) + exp 1)),
          Finite (exp (- 1) / (1 + exp (- 1) + exp 1)),
          Finite (exp 1 / (1 + exp (- 1) + exp 1))]"
    using r(2) by (simp add: DBL_MAX_def overflow_threshold_def)
qed



subsection \<open>Unnormalized probabilities\<close>




subsection \<open>The choice probabilities as a distribution\<close>




subsection \<open>The probability of the chosen alternative\<close>

text \<open>
  Claim C6. Whenever \<open>choice_probabilities\<close> returns a vector for a person and the
  person's stored choice is an index into it, \<open>choice_probability\<close> returns the element
  of that vector at the stored choice.
\<close>

theorem choice_probability_indexes_choice_probabilities:
  assumes "choice_probabilities this person_index beta_vector = Inr probabilities"
    and "get_discrete_choice_index this person_index = Inr k"
    and "0 \<le> k" and "nat k < length probabilities"
  shows "choice_probability this person_index beta_vector = Inr (probabilities ! nat k)"
  using assms by (simp add: choice_probability_def)

theorem choice_probability_indexes_choice_probabilities_witness:
  "get_discrete_choice_index example_table 1 = Inr 2 \<and>
   choice_probability example_table 1 [1, 0] =
     Inr (Finite (exp 1 / (1 + exp (- 1) + exp 1)))"
proof -
  have k: "get_discrete_choice_index example_table 1 = Inr 2"
    by (simp add: example_accessors)
  from choice_probability_indexes_choice_probabilities[OF example_probabilities(2) k]
  show ?thesis using k by simp
qed

end
